theory Spec2Isabelle
  imports Main "HOL-Library.Multiset"
begin

chapter \<open>A bounded-depth, single-domain web crawler (crawl.py)\<close>

text \<open>
  The development follows the source file \<^verbatim>\<open>src/crawl.py\<close>: the duplicate-image
  report (\<^verbatim>\<open>output_dupimgs\<close>), the link classification inside the worker
  (\<^verbatim>\<open>parse_url\<close>, the loop over the links of a page) and the worker loop itself,
  run by several processes over a shared queue.  All definitions come first, the
  lemmas and theorems follow.
\<close>

section \<open>The duplicate-image report: \<^verbatim>\<open>output_dupimgs\<close> (lines 150--166)\<close>










section \<open>Library functions called by the worker\<close>

text \<open>
  The worker calls \<^verbatim>\<open>urlparse\<close> and \<^verbatim>\<open>urlunparse\<close> of \<^verbatim>\<open>urllib.parse\<close> and
  \<^verbatim>\<open>Path(...).resolve()\<close> of \<^verbatim>\<open>pathlib\<close>.  They are not part of the repository; they
  are written here after the standard library of Python 3.7 (the interpreter named in the
  first line of \<^verbatim>\<open>crawl.py\<close>), for strings of 8-bit characters, so that the worker's
  code can be evaluated on concrete links.  An exception raised by a library call is the
  \<open>Inl\<close> summand of the result.  The checks that later maintenance releases added to
  \<^verbatim>\<open>urlsplit\<close> (on hosts with characters outside ASCII, and the removal of tab and
  newline characters) and the exception of \<^verbatim>\<open>os.readlink\<close> on a path with a NUL
  character are left out; they do not concern the URLs used below.
\<close>

datatype py_exception = ValueError | RuntimeError | RecursionError | OtherException

text \<open>The six-field named tuple returned by \<^verbatim>\<open>urlparse\<close>.\<close>

record ParseResult =
  scheme :: string
  netloc :: string
  path :: string
  params :: string
  query :: string
  fragment :: string

definition scheme_chars :: string where
  "scheme_chars = ''abcdefghijklmnopqrstuvwxyzABCDEFGHIJKLMNOPQRSTUVWXYZ0123456789+-.''"

definition uses_netloc :: "string list" where
  "uses_netloc = ['''', ''ftp'', ''http'', ''gopher'', ''nntp'', ''telnet'',
     ''imap'', ''wais'', ''file'', ''mms'', ''https'', ''shttp'',
     ''snews'', ''prospero'', ''rtsp'', ''rtspu'', ''rsync'',
     ''svn'', ''svn+ssh'', ''sftp'', ''nfs'', ''git'', ''git+ssh'', ''ws'', ''wss'']"

definition uses_params :: "string list" where
  "uses_params = ['''', ''ftp'', ''hdl'', ''prospero'', ''http'', ''imap'',
     ''https'', ''shttp'', ''rtsp'', ''rtspu'', ''sip'', ''sips'', ''mms'', ''sftp'', ''tel'']"

text \<open>
  String primitives: \<^verbatim>\<open>s.find(c)\<close> (\<open>None\<close> for \<open>-1\<close>), \<^verbatim>\<open>sub in s\<close>,
  \<^verbatim>\<open>s.lower()\<close>, \<^verbatim>\<open>s.split(c)\<close>, \<^verbatim>\<open>sep.join(xs)\<close> and \<^verbatim>\<open>s.split(c, 1)\<close> for a
  string that contains \<open>c\<close>.  The result of \<open>split_sep\<close> is never empty; its first
  case branch is there for totality only.
\<close>

fun str_find :: "char \<Rightarrow> string \<Rightarrow> nat option" where
  "str_find c [] = None"
| "str_find c (x # xs) = (if x = c then Some 0 else map_option Suc (str_find c xs))"

fun str_contains :: "string \<Rightarrow> string \<Rightarrow> bool" where
  "str_contains sub [] = (sub = [])"
| "str_contains sub (x # xs) = (take (length sub) (x # xs) = sub \<or> str_contains sub xs)"

definition lower_char :: "char \<Rightarrow> char" where
  "lower_char c = (case map_of (zip ''ABCDEFGHIJKLMNOPQRSTUVWXYZ'' ''abcdefghijklmnopqrstuvwxyz'') c of
      None \<Rightarrow> c | Some l \<Rightarrow> l)"

definition lower :: "string \<Rightarrow> string" where
  "lower s = map lower_char s"

fun split_sep :: "char \<Rightarrow> string \<Rightarrow> string list" where
  "split_sep c [] = [[]]"
| "split_sep c (x # xs) =
     (if x = c then [] # split_sep c xs
      else (case split_sep c xs of [] \<Rightarrow> [[x]] | y # ys \<Rightarrow> (x # y) # ys))"

fun join_sep :: "string \<Rightarrow> string list \<Rightarrow> string" where
  "join_sep sep [] = []"
| "join_sep sep [x] = x"
| "join_sep sep (x # y # ys) = x @ sep @ join_sep sep (y # ys)"

definition split_once :: "char \<Rightarrow> string \<Rightarrow> string \<times> string" where
  "split_once c s = (takeWhile (\<lambda>x. x \<noteq> c) s, drop 1 (dropWhile (\<lambda>x. x \<noteq> c) s))"

text \<open>
  \<^verbatim>\<open>_splitnetloc(url, 2)\<close>: the network location runs from index 2 to the first of
  \<open>/\<close>, \<open>?\<close>, \<open>#\<close>.  \<open>urlsplit_rest\<close> is the part of \<^verbatim>\<open>urlsplit\<close> that follows the
  detection of the scheme (the same statements on both paths of the library function):
  network location, the bracket test that raises \<^verbatim>\<open>ValueError("Invalid IPv6 URL")\<close>,
  fragment and query.
\<close>

definition splitnetloc :: "string \<Rightarrow> string \<times> string" where
  "splitnetloc url =
     (takeWhile (\<lambda>c. c \<notin> set ''/?#'') (drop 2 url), dropWhile (\<lambda>c. c \<notin> set ''/?#'') (drop 2 url))"

definition urlsplit_rest :: "string \<Rightarrow> string \<Rightarrow> py_exception + (string \<times> string \<times> string \<times> string \<times> string)" where
  "urlsplit_rest sch url =
     (let (nl, url1) = (if take 2 url = ''//'' then splitnetloc url else ('''', url)) in
      if (CHR ''['' \<in> set nl \<and> CHR '']'' \<notin> set nl) \<or> (CHR '']'' \<in> set nl \<and> CHR ''['' \<notin> set nl)
      then Inl ValueError
      else
        let (url2, frag) = (if CHR ''#'' \<in> set url1 then split_once CHR ''#'' url1 else (url1, ''''));
            (url3, qry) = (if CHR ''?'' \<in> set url2 then split_once CHR ''?'' url2 else (url2, ''''))
        in Inr (sch, nl, url3, qry, frag))"

text \<open>
  \<^verbatim>\<open>urlsplit\<close>: a scheme is recognised when the text before the first colon is
  \<open>http\<close>, or consists of scheme characters and what follows the colon is not a port
  number.
\<close>

definition urlsplit :: "string \<Rightarrow> py_exception + (string \<times> string \<times> string \<times> string \<times> string)" where
  "urlsplit url =
     (case str_find CHR '':'' url of
        None \<Rightarrow> urlsplit_rest '''' url
      | Some i \<Rightarrow>
          if 0 < i then
            (if take i url = ''http'' then urlsplit_rest (lower (take i url)) (drop (i + 1) url)
             else if \<forall>c \<in> set (take i url). c \<in> set scheme_chars then
               (let rest = drop (i + 1) url in
                if rest = [] \<or> (\<exists>c \<in> set rest. c \<notin> set ''0123456789'')
                then urlsplit_rest (lower (take i url)) rest
                else urlsplit_rest '''' url)
             else urlsplit_rest '''' url)
          else urlsplit_rest '''' url)"

text \<open>
  \<^verbatim>\<open>_splitparams\<close> and \<^verbatim>\<open>urlparse\<close>.  \<open>rfind\<close> is the index of the last occurrence of
  a character that occurs in the string.
\<close>

definition rfind :: "char \<Rightarrow> string \<Rightarrow> nat" where
  "rfind c s = length s - 1 - length (takeWhile (\<lambda>x. x \<noteq> c) (rev s))"

definition splitparams :: "string \<Rightarrow> string \<times> string" where
  "splitparams url =
     (if CHR ''/'' \<in> set url then
        (case str_find CHR '';'' (drop (rfind CHR ''/'' url) url) of
           None \<Rightarrow> (url, '''')
         | Some k \<Rightarrow> (take (rfind CHR ''/'' url + k) url, drop (rfind CHR ''/'' url + k + 1) url))
      else (case str_find CHR '';'' url of
           None \<Rightarrow> (butlast url, url)
         | Some i \<Rightarrow> (take i url, drop (i + 1) url)))"

definition urlparse :: "string \<Rightarrow> py_exception + ParseResult" where
  "urlparse url =
     (case urlsplit url of
        Inl e \<Rightarrow> Inl e
      | Inr (sch, nl, url1, qry, frag) \<Rightarrow>
          (let (url2, prm) = (if sch \<in> set uses_params \<and> CHR '';'' \<in> set url1
                              then splitparams url1 else (url1, ''''))
           in Inr \<lparr>scheme = sch, netloc = nl, path = url2, params = prm, query = qry, fragment = frag\<rparr>))"

text \<open>\<^verbatim>\<open>urlunsplit\<close> and \<^verbatim>\<open>urlunparse\<close>.\<close>

definition urlunsplit :: "string \<times> string \<times> string \<times> string \<times> string \<Rightarrow> string" where
  "urlunsplit c =
     (case c of (sch, nl, url, qry, frag) \<Rightarrow>
        (let url1 = (if nl \<noteq> '''' \<or> (sch \<noteq> '''' \<and> sch \<in> set uses_netloc \<and> take 2 url \<noteq> ''//'')
                     then ''//'' @ nl @ (if url \<noteq> '''' \<and> take 1 url \<noteq> ''/'' then ''/'' @ url else url)
                     else url);
             url2 = (if sch \<noteq> '''' then sch @ '':'' @ url1 else url1);
             url3 = (if qry \<noteq> '''' then url2 @ ''?'' @ qry else url2)
         in if frag \<noteq> '''' then url3 @ ''#'' @ frag else url3))"

definition urlunparse :: "string \<times> string \<times> string \<times> string \<times> string \<times> string \<Rightarrow> string" where
  "urlunparse c =
     (case c of (sch, nl, url, prm, qry, frag) \<Rightarrow>
        urlunsplit (sch, nl, (if prm \<noteq> '''' then url @ '';'' @ prm else url), qry, frag))"

text \<open>
  \<^verbatim>\<open>str(Path(s))\<close> for one argument: the root is \<open>//\<close> for exactly two leading slashes
  and \<open>/\<close> for any other positive number of them; empty and \<open>.\<close> components are dropped.
\<close>

definition splitroot :: "string \<Rightarrow> string \<times> string" where
  "splitroot part =
     (if part \<noteq> [] \<and> hd part = CHR ''/'' then
        (let stripped_part = dropWhile (\<lambda>c. c = CHR ''/'') part in
         if length part - length stripped_part = 2 then (''//'', stripped_part)
         else (''/'', stripped_part))
      else ('''', part))"

definition PurePath_str :: "string \<Rightarrow> string" where
  "PurePath_str s =
     (let (root, rel) = splitroot s;
          parts = filter (\<lambda>x. x \<noteq> [] \<and> x \<noteq> ''.'') (split_sep CHR ''/'' rel);
          str = root @ join_sep ''/'' parts
      in if s = [] \<or> str = [] then ''.'' else str)"

text \<open>
  \<^verbatim>\<open>_PosixFlavour.resolve\<close>.  \<open>rpartition_head p\<close> is the first component of
  \<^verbatim>\<open>p.rpartition('/')\<close>.  \<open>resolve_names\<close> is the loop of the inner function
  \<^verbatim>\<open>_resolve\<close> over the names of a path: the argument \<open>rl\<close> is \<^verbatim>\<open>os.readlink\<close> on the
  machine that runs the crawler (\<open>None\<close> when the call fails, that is when the path is
  not a symbolic link), \<open>seen\<close> is the dictionary of links under resolution, and the
  first argument bounds the depth of the recursion into link targets, as the recursion
  limit of the interpreter does.
\<close>

definition rpartition_head :: "string \<Rightarrow> string" where
  "rpartition_head p = rev (drop 1 (dropWhile (\<lambda>c. c \<noteq> CHR ''/'') (rev p)))"

type_synonym seen_map = "string \<Rightarrow> string option option"

fun resolve_names ::
  "nat \<Rightarrow> (string \<Rightarrow> string option) \<Rightarrow> seen_map \<Rightarrow> string \<Rightarrow> string list \<Rightarrow> py_exception + (string \<times> seen_map)" where
  "resolve_names n rl seen p [] = Inr (p, seen)"
| "resolve_names n rl seen p (name # names) =
     (if name = [] \<or> name = ''.'' then resolve_names n rl seen p names
      else if name = ''..'' then resolve_names n rl seen (rpartition_head p) names
      else
        (case seen (p @ ''/'' @ name) of
           Some (Some cached) \<Rightarrow> resolve_names n rl seen cached names
         | Some None \<Rightarrow> Inl RuntimeError
         | None \<Rightarrow>
             (case rl (p @ ''/'' @ name) of
                None \<Rightarrow> resolve_names n rl seen (p @ ''/'' @ name) names
              | Some target \<Rightarrow>
                  (case n of
                     0 \<Rightarrow> Inl RecursionError
                   | Suc m \<Rightarrow>
                       (case resolve_names m rl (seen(p @ ''/'' @ name \<mapsto> None))
                               (if take 1 target = ''/'' then [] else p) (split_sep CHR ''/'' target) of
                          Inl e \<Rightarrow> Inl e
                        | Inr (q, seen') \<Rightarrow>
                            resolve_names n rl (seen'(p @ ''/'' @ name \<mapsto> Some q)) q names)))))"

text \<open>\<^verbatim>\<open>posixpath.normpath\<close>, which \<^verbatim>\<open>Path.resolve\<close> applies to the resolved path.\<close>

definition normpath :: "string \<Rightarrow> string" where
  "normpath p =
     (if p = [] then ''.''
      else
        (let initial_slashes = (if take 1 p = ''/'' then
                                  (if take 2 p = ''//'' \<and> take 3 p \<noteq> ''///'' then 2 else 1)
                                else (0::nat));
             new_comps = foldl (\<lambda>nc comp.
                 if comp = [] \<or> comp = ''.'' then nc
                 else if comp \<noteq> ''..'' \<or> (initial_slashes = 0 \<and> nc = []) \<or> (nc \<noteq> [] \<and> last nc = ''..'')
                 then nc @ [comp]
                 else if nc \<noteq> [] then butlast nc else nc) [] (split_sep CHR ''/'' p);
             q = replicate initial_slashes CHR ''/'' @ join_sep ''/'' new_comps
         in if q = [] then ''.'' else q))"

text \<open>
  What a process gets from the machine that runs it: the symbolic links, the current
  directory (used by \<^verbatim>\<open>Path.resolve\<close> for a relative path only), the recursion limit,
  and whether a \<^verbatim>\<open>KeyboardInterrupt\<close> arrives while \<^verbatim>\<open>validate_url\<close> works on a string.
\<close>

record machine =
  readlink :: "string \<Rightarrow> string option"
  getcwd :: string
  recursion_limit :: nat
  interrupted :: "string \<Rightarrow> bool"

definition Path_resolve :: "machine \<Rightarrow> string \<Rightarrow> py_exception + string" where
  "Path_resolve mc s =
     (case resolve_names (recursion_limit mc) (readlink mc) (\<lambda>_. None)
             (if take 1 (PurePath_str s) = ''/'' then [] else getcwd mc)
             (split_sep CHR ''/'' (PurePath_str s)) of
        Inl e \<Rightarrow> Inl e
      | Inr (r, _) \<Rightarrow> Inr (PurePath_str (normpath (if r = [] then ''/'' else r))))"

section \<open>The classification of a link (lines 20--39 and 100--121)\<close>

datatype URLError = EXTERNAL_DOMAIN | DOWNLOAD_ERROR | PARSE_ERROR

text \<open>
  \<^verbatim>\<open>validate_url\<close> (lines 30--39) returns the parsed URL, and \<^verbatim>\<open>None\<close> when a
  \<^verbatim>\<open>KeyboardInterrupt\<close> arrives during the call; an exception of \<^verbatim>\<open>urlparse\<close> is not
  caught there.
\<close>

definition validate_url :: "machine \<Rightarrow> string \<Rightarrow> py_exception + ParseResult option" where
  "validate_url mc url =
     (if interrupted mc url then Inr None
      else (case urlparse url of Inl e \<Rightarrow> Inl e | Inr p \<Rightarrow> Inr (Some p)))"

text \<open>
  The body of the loop \<^verbatim>\<open>for link in links\<close>, in three parts.  \<open>resolve_link\<close> is
  lines 106--113: the scheme and the network location of the page are supplied where
  the link has none, a path that contains the text \<open>..\<close> is replaced by the resolved
  path \<^verbatim>\<open>Path("/{}/{}".format(url_parsed.path, p.path)).resolve()\<close>, the fragment is
  cleared and the URL is put together again.  \<open>check_domain\<close> is lines 114--121.  In
  \<open>classify_link\<close> a link is appended to \<^verbatim>\<open>invalid_urls\<close> with its error, or to
  \<^verbatim>\<open>valid_urls\<close>, or an exception leaves the loop.
\<close>

datatype link_class = LinkInvalid string URLError | LinkValid string

definition resolve_link :: "machine \<Rightarrow> ParseResult \<Rightarrow> ParseResult \<Rightarrow> py_exception + string" where
  "resolve_link mc url_parsed p =
     (let t0 = (if scheme p = '''' then scheme url_parsed else scheme p);
          t1 = (if netloc p = '''' then netloc url_parsed else netloc p)
      in case (if str_contains ''..'' (path p)
               then Path_resolve mc (''/'' @ path url_parsed @ ''/'' @ path p)
               else Inr (path p)) of
           Inl e \<Rightarrow> Inl e
         | Inr t2 \<Rightarrow> Inr (urlunparse (t0, t1, t2, params p, query p, '''')))"

definition check_domain :: "machine \<Rightarrow> ParseResult \<Rightarrow> string \<Rightarrow> py_exception + link_class" where
  "check_domain mc url_parsed new_link =
     (case validate_url mc new_link of
        Inl e \<Rightarrow> Inl e
      | Inr None \<Rightarrow> Inr (LinkInvalid new_link PARSE_ERROR)
      | Inr (Some p) \<Rightarrow>
          if netloc p \<noteq> netloc url_parsed
          then Inr (LinkInvalid new_link EXTERNAL_DOMAIN)
          else Inr (LinkValid new_link))"

definition classify_link :: "machine \<Rightarrow> ParseResult \<Rightarrow> string \<Rightarrow> py_exception + link_class" where
  "classify_link mc url_parsed link =
     (case validate_url mc link of
        Inl e \<Rightarrow> Inl e
      | Inr None \<Rightarrow> Inr (LinkInvalid link PARSE_ERROR)
      | Inr (Some p) \<Rightarrow>
          (case resolve_link mc url_parsed p of
             Inl e \<Rightarrow> Inl e
           | Inr new_link \<Rightarrow> check_domain mc url_parsed new_link))"

fun links_loop ::
  "machine \<Rightarrow> ParseResult \<Rightarrow> string list \<Rightarrow> (string \<times> URLError) list \<Rightarrow> string list \<Rightarrow>
     py_exception option \<times> (string \<times> URLError) list \<times> string list" where
  "links_loop mc url_parsed [] invalid_urls valid_urls = (None, invalid_urls, valid_urls)"
| "links_loop mc url_parsed (link # links) invalid_urls valid_urls =
     (case classify_link mc url_parsed link of
        Inl e \<Rightarrow> (Some e, invalid_urls, valid_urls)
      | Inr (LinkInvalid u k) \<Rightarrow> links_loop mc url_parsed links (invalid_urls @ [(u, k)]) valid_urls
      | Inr (LinkValid u) \<Rightarrow> links_loop mc url_parsed links invalid_urls (valid_urls @ [u]))"

text \<open>
  The URL Normalizer of the specification, on a parent URL and a raw link: the parent
  is parsed by \<^verbatim>\<open>urlparse\<close>, as line 75 does for the URL of the page.
\<close>

definition Normalizer :: "machine \<Rightarrow> string \<Rightarrow> string \<Rightarrow> py_exception + link_class" where
  "Normalizer mc parent link =
     (case urlparse parent of Inl e \<Rightarrow> Inl e | Inr url_parsed \<Rightarrow> classify_link mc url_parsed link)"

text \<open>
  Two machines on which no interrupt arrives: one without symbolic links, one where
  \<open>/bin\<close> is a link to \<open>usr/bin\<close>.
\<close>

definition no_symlinks :: machine where
  "no_symlinks = \<lparr>readlink = (\<lambda>_. None), getcwd = ''/'', recursion_limit = 1000,
      interrupted = (\<lambda>_. False)\<rparr>"

definition usr_merge :: machine where
  "usr_merge = \<lparr>readlink = (\<lambda>p. if p = ''/bin'' then Some ''usr/bin'' else None), getcwd = ''/'', recursion_limit = 1000,
      interrupted = (\<lambda>_. False)\<rparr>"

section \<open>The worker \<^verbatim>\<open>parse_url\<close> and the crawler (lines 42--147 and 169--216)\<close>

text \<open>
  A response carries its \<^verbatim>\<open>Content-Type\<close> header, the result of the extraction of
  lines 96--98 from its body (the \<^verbatim>\<open>href\<close> values of the anchors followed by the
  \<^verbatim>\<open>src\<close> values of the images, or an exception) and the MD5 digest of its content.
  The outcome of \<^verbatim>\<open>requests.get(url)\<close> followed by \<^verbatim>\<open>raise_for_status()\<close> is a
  \<^verbatim>\<open>RequestException\<close>, another exception, or a response.
\<close>

record response =
  content_type :: "string option"
  html_links :: "py_exception + string list"
  content_md5 :: string

datatype fetch_outcome = RequestException | FetchException py_exception | Response response

text \<open>The two tests on the content type (lines 95 and 128).\<close>

definition is_html :: "string option \<Rightarrow> bool" where
  "is_html ct = (case ct of None \<Rightarrow> False | Some c \<Rightarrow> c \<noteq> [] \<and> str_contains ''text/html'' c)"

definition is_image :: "string option \<Rightarrow> bool" where
  "is_image ct = (case ct of None \<Rightarrow> False | Some c \<Rightarrow> c \<noteq> [] \<and> take 6 c = ''image/'')"

text \<open>
  The processes share the queue, the two manager lists, the files and the two standard
  streams; everything else is local to a worker.  A worker is at one of these points of
  the loop body, holding its local variables \<^verbatim>\<open>url\<close>, \<^verbatim>\<open>level\<close>, \<^verbatim>\<open>invalid_urls\<close> and
  the rest of \<^verbatim>\<open>set(valid_urls)\<close>:
  \<^item> \<open>Idle\<close>: in \<^verbatim>\<open>queue.get()\<close> (line 57);
  \<^item> \<open>Check\<close>: before the test \<^verbatim>\<open>url in visited_urls\<close> (line 65);
  \<^item> \<open>Fetch\<close>: at the start of the \<^verbatim>\<open>try\<close>, before the progress line is written
    (lines 69--86);
  \<^item> \<open>WriteValid\<close>: before the row of the URL is written (lines 89--121);
  \<^item> \<open>PushLinks\<close>, \<open>Put\<close>: in the loop of lines 124--126, before the test
    \<^verbatim>\<open>u not in visited_urls\<close> and before \<^verbatim>\<open>queue.put\<close>;
  \<^item> \<open>AppendImage\<close>: before line 131;
  \<^item> \<open>Except\<close>: in the handler \<^verbatim>\<open>except Exception\<close>, before line 136, with the exception
    that was caught;
  \<^item> \<open>WriteInvalid\<close>, \<open>MarkVisited\<close>, \<open>TaskDone\<close>: before lines 140, 146 and 147
    (\<open>TaskDone\<close> also before lines 61 and 66);
  \<^item> \<open>Dead\<close>: the process has ended with an exception that no handler caught; it keeps
    the item that it had taken from the queue and not marked done, if any.
\<close>

datatype wstate =
    Idle
  | Check string int
  | Fetch string int
  | WriteValid string int ParseResult response
  | AppendImage string int string
  | PushLinks string int "string list" "(string \<times> URLError) list"
  | Put string int string "string list" "(string \<times> URLError) list"
  | Except string int "(string \<times> URLError) list" py_exception
  | WriteInvalid string int "(string \<times> URLError) list"
  | MarkVisited string int
  | TaskDone string int
  | Dead "(string \<times> int) option"

text \<open>
  The environment of a run: the depth bound and the number of processes
  (\<^verbatim>\<open>mp.cpu_count()\<close>), the machine, the fetcher, and the exception, if any, that the
  access to the shared state raises in the action that a worker is about to make: the
  queue operations \<^verbatim>\<open>get\<close>, \<^verbatim>\<open>put\<close> and \<^verbatim>\<open>task_done\<close>, the operations on the manager
  lists, and the writes to the two files and to the two streams.  An access that raises
  leaves the shared state as it was.
\<close>

record environment =
  MAX_DEPTH_LEVEL :: int
  cpu_count :: nat
  host_machine :: machine
  fetch :: "string \<Rightarrow> fetch_outcome"
  raises :: "wstate \<Rightarrow> py_exception option"

text \<open>
  The shared state.  \<open>unfinished\<close> is the counter of the joinable queue: \<^verbatim>\<open>put\<close>
  increments it, \<^verbatim>\<open>task_done\<close> decrements it and raises \<^verbatim>\<open>ValueError\<close> at zero,
  \<^verbatim>\<open>join\<close> returns when it is zero.  \<open>stdout\<close> holds the URL and the depth of each
  progress line (lines 70--73), \<open>stderr\<close> the URL and the exception of each line written
  by the handler (lines 136--138).  The last four fields are not in the program: they
  record every item put on the queue, every call of the fetcher with the item it was
  made for, the item processed when each row of the file of invalid URLs was written,
  and every item marked done.
\<close>

record state =
  queue :: "(string \<times> int) list"
  unfinished :: nat
  visited_urls :: "string list"
  duplicate_images_urls :: "(string \<times> string) list"
  valid_urls_fd :: "(string \<times> int) list"
  invalid_urls_fd :: "(string \<times> URLError) list"
  stdout :: "(string \<times> int) list"
  stderr :: "(string \<times> py_exception) list"
  workers :: "wstate list"
  put_log :: "(string \<times> int) list"
  fetch_log :: "(string \<times> int) list"
  invalid_items :: "(string \<times> int) list"
  done_log :: "(string \<times> int) list"

text \<open>
  Lines 94--131, after the row of the URL has been written: the local computation on
  the response, which touches no shared state.  It yields the point where the worker
  continues; an exception of the extraction or of the classification of a link leads
  to the handler, with the rows collected in \<^verbatim>\<open>invalid_urls\<close> so far.
\<close>

definition process_response ::
  "machine \<Rightarrow> string \<Rightarrow> int \<Rightarrow> ParseResult \<Rightarrow> response \<Rightarrow> wstate" where
  "process_response mc url level url_parsed resp =
     (if is_html (content_type resp) then
        (case html_links resp of
           Inl e \<Rightarrow> Except url level [] e
         | Inr links \<Rightarrow>
             (case links_loop mc url_parsed links [] [] of
                (Some e, invalid_urls, valid_urls) \<Rightarrow> Except url level invalid_urls e
              | (None, invalid_urls, valid_urls) \<Rightarrow>
                  PushLinks url level (remdups valid_urls) invalid_urls))
      else if is_image (content_type resp) then AppendImage url level (content_md5 resp)
      else WriteInvalid url level [])"

text \<open>
  One atomic action of a worker: each equation makes at most one access to the shared
  state, so that the runs of several processes are the interleavings of these actions.
  The number \<open>c\<close> chooses the next element of \<^verbatim>\<open>set(valid_urls)\<close>, whose iteration
  order Python does not fix.  An exception raised inside the \<^verbatim>\<open>try\<close> of lines 69--132
  leads to the handler.  Everything else is outside the \<^verbatim>\<open>try\<close>: an exception raised
  by \<^verbatim>\<open>queue.get()\<close>, by the test of line 65, by the handler itself, by the write of the
  rows of \<^verbatim>\<open>invalid_urls\<close> (lines 140--144), by the append of line 146 or by
  \<^verbatim>\<open>queue.task_done()\<close> ends the process.
\<close>

fun parse_url :: "environment \<Rightarrow> nat \<Rightarrow> wstate \<Rightarrow> state \<Rightarrow> wstate \<times> state" where
  "parse_url env c Idle s =
     (case raises env Idle of
        Some e \<Rightarrow> (Dead None, s)
      | None \<Rightarrow>
          (case queue s of
             [] \<Rightarrow> (Idle, s)
           | (url, level) # q \<Rightarrow>
               (if level > MAX_DEPTH_LEVEL env then TaskDone url level else Check url level,
                s\<lparr>queue := q\<rparr>)))"
| "parse_url env c (Check url level) s =
     (case raises env (Check url level) of
        Some e \<Rightarrow> (Dead (Some (url, level)), s)
      | None \<Rightarrow> (if url \<in> set (visited_urls s) then TaskDone url level else Fetch url level, s))"
| "parse_url env c (Fetch url level) s =
     (case raises env (Fetch url level) of
        Some e \<Rightarrow> (Except url level [] e, s)
      | None \<Rightarrow>
          (case validate_url (host_machine env) url of
             Inl e \<Rightarrow> (Except url level [] e, s\<lparr>stdout := stdout s @ [(url, level)]\<rparr>)
           | Inr None \<Rightarrow>
               (WriteInvalid url level [(url, PARSE_ERROR)], s\<lparr>stdout := stdout s @ [(url, level)]\<rparr>)
           | Inr (Some url_parsed) \<Rightarrow>
               (case fetch env url of
                  RequestException \<Rightarrow>
                    (WriteInvalid url level [(url, DOWNLOAD_ERROR)],
                     s\<lparr>stdout := stdout s @ [(url, level)], fetch_log := fetch_log s @ [(url, level)]\<rparr>)
                | FetchException e \<Rightarrow>
                    (Except url level [] e,
                     s\<lparr>stdout := stdout s @ [(url, level)], fetch_log := fetch_log s @ [(url, level)]\<rparr>)
                | Response resp \<Rightarrow>
                    (WriteValid url level url_parsed resp,
                     s\<lparr>stdout := stdout s @ [(url, level)], fetch_log := fetch_log s @ [(url, level)]\<rparr>))))"
| "parse_url env c (WriteValid url level url_parsed resp) s =
     (case raises env (WriteValid url level url_parsed resp) of
        Some e \<Rightarrow> (Except url level [] e, s)
      | None \<Rightarrow>
          (process_response (host_machine env) url level url_parsed resp,
           s\<lparr>valid_urls_fd := valid_urls_fd s @ [(url, level)]\<rparr>))"
| "parse_url env c (AppendImage url level h) s =
     (case raises env (AppendImage url level h) of
        Some e \<Rightarrow> (Except url level [] e, s)
      | None \<Rightarrow>
          (WriteInvalid url level [], s\<lparr>duplicate_images_urls := duplicate_images_urls s @ [(h, url)]\<rparr>))"
| "parse_url env c (PushLinks url level us invalid_urls) s =
     (if us = [] then (WriteInvalid url level invalid_urls, s)
      else
        (case raises env (PushLinks url level us invalid_urls) of
           Some e \<Rightarrow> (Except url level invalid_urls e, s)
         | None \<Rightarrow>
             (let k = c mod length us; u = us ! k; rest = take k us @ drop (Suc k) us
              in (if u \<notin> set (visited_urls s) then Put url level u rest invalid_urls
                  else PushLinks url level rest invalid_urls, s))))"
| "parse_url env c (Put url level u rest invalid_urls) s =
     (case raises env (Put url level u rest invalid_urls) of
        Some e \<Rightarrow> (Except url level invalid_urls e, s)
      | None \<Rightarrow>
          (PushLinks url level rest invalid_urls,
           s\<lparr>queue := queue s @ [(u, level + 1)], unfinished := Suc (unfinished s),
             put_log := put_log s @ [(u, level + 1)]\<rparr>))"
| "parse_url env c (Except url level invalid_urls e) s =
     (case raises env (Except url level invalid_urls e) of
        Some e' \<Rightarrow> (Dead (Some (url, level)), s)
      | None \<Rightarrow> (WriteInvalid url level invalid_urls, s\<lparr>stderr := stderr s @ [(url, e)]\<rparr>))"
| "parse_url env c (WriteInvalid url level invalid_urls) s =
     (case raises env (WriteInvalid url level invalid_urls) of
        Some e \<Rightarrow> (Dead (Some (url, level)), s)
      | None \<Rightarrow>
          (MarkVisited url level,
           s\<lparr>invalid_urls_fd := invalid_urls_fd s @ invalid_urls,
             invalid_items := invalid_items s @ map (\<lambda>_. (url, level)) invalid_urls\<rparr>))"
| "parse_url env c (MarkVisited url level) s =
     (case raises env (MarkVisited url level) of
        Some e \<Rightarrow> (Dead (Some (url, level)), s)
      | None \<Rightarrow> (TaskDone url level, s\<lparr>visited_urls := visited_urls s @ [url]\<rparr>))"
| "parse_url env c (TaskDone url level) s =
     (case raises env (TaskDone url level) of
        Some e \<Rightarrow> (Dead (Some (url, level)), s)
      | None \<Rightarrow>
          (if unfinished s = 0 then (Dead (Some (url, level)), s)
           else (Idle, s\<lparr>unfinished := unfinished s - 1, done_log := done_log s @ [(url, level)]\<rparr>)))"
| "parse_url env c (Dead x) s = (Dead x, s)"

text \<open>
  A schedule is a list of pairs of a process number and a choice; \<open>step\<close> lets that
  process make its next action.  \<open>Crawler\<close> is the state after the constructor has
  started the processes and put the starting URL at depth 0 (lines 185--201), and
  \<open>crawl\<close> the state reached from there under a schedule.  The call \<^verbatim>\<open>queue.join()\<close>
  of line 202 returns when \<open>unfinished\<close> is zero.
\<close>

definition step :: "environment \<Rightarrow> nat \<times> nat \<Rightarrow> state \<Rightarrow> state" where
  "step env a s =
     (case a of (i, c) \<Rightarrow>
        if i < length (workers s) then
          (case parse_url env c (workers s ! i) s of (w, s') \<Rightarrow> s'\<lparr>workers := (workers s')[i := w]\<rparr>)
        else s)"

definition Crawler :: "environment \<Rightarrow> string \<Rightarrow> state" where
  "Crawler env starting_url =
     \<lparr>queue = [(starting_url, 0)], unfinished = 1, visited_urls = [], duplicate_images_urls = [],
      valid_urls_fd = [], invalid_urls_fd = [], stdout = [], stderr = [],
      workers = replicate (cpu_count env) Idle,
      put_log = [(starting_url, 0)], fetch_log = [], invalid_items = [], done_log = []\<rparr>"

definition run :: "environment \<Rightarrow> (nat \<times> nat) list \<Rightarrow> state \<Rightarrow> state" where
  "run env sched s = foldl (\<lambda>s a. step env a s) s sched"

definition crawl :: "environment \<Rightarrow> string \<Rightarrow> (nat \<times> nat) list \<Rightarrow> state" where
  "crawl env starting_url sched = run env sched (Crawler env starting_url)"
section \<open>Notions used to state the properties of runs\<close>

text \<open>
  The item a worker holds: the item that it has taken from the queue and not marked
  done.  A worker is past the depth guard of line 60 with its item when it is between
  line 65 and line 146 (\<open>TaskDone\<close> is also reached by an item that the guard has
  discarded).
\<close>

fun item_of :: "wstate \<Rightarrow> (string \<times> int) option" where
  "item_of Idle = None"
| "item_of (Check url level) = Some (url, level)"
| "item_of (Fetch url level) = Some (url, level)"
| "item_of (WriteValid url level url_parsed resp) = Some (url, level)"
| "item_of (AppendImage url level h) = Some (url, level)"
| "item_of (PushLinks url level us invalid_urls) = Some (url, level)"
| "item_of (Put url level u rest invalid_urls) = Some (url, level)"
| "item_of (Except url level invalid_urls e) = Some (url, level)"
| "item_of (WriteInvalid url level invalid_urls) = Some (url, level)"
| "item_of (MarkVisited url level) = Some (url, level)"
| "item_of (TaskDone url level) = Some (url, level)"
| "item_of (Dead x) = x"

fun guarded :: "wstate \<Rightarrow> bool" where
  "guarded Idle = False"
| "guarded (TaskDone url level) = False"
| "guarded (Dead x) = False"
| "guarded w = True"

text \<open>The depth bounds, on the shared state and on the local state of a worker.\<close>

definition depth_shared :: "environment \<Rightarrow> state \<Rightarrow> bool" where
  "depth_shared env s \<longleftrightarrow>
     (\<forall>x \<in> set (put_log s). snd x = 0 \<or> snd x \<le> MAX_DEPTH_LEVEL env + 1) \<and>
     set (queue s) \<subseteq> set (put_log s) \<and>
     (\<forall>x \<in> set (valid_urls_fd s). snd x \<le> MAX_DEPTH_LEVEL env) \<and>
     (\<forall>x \<in> set (invalid_items s). snd x \<le> MAX_DEPTH_LEVEL env) \<and>
     length (invalid_items s) = length (invalid_urls_fd s) \<and>
     (\<forall>x \<in> set (fetch_log s). snd x \<le> MAX_DEPTH_LEVEL env \<and> x \<in> set (put_log s))"

definition depth_local :: "environment \<Rightarrow> state \<Rightarrow> wstate \<Rightarrow> bool" where
  "depth_local env s w =
     (case item_of w of
        None \<Rightarrow> True
      | Some x \<Rightarrow> x \<in> set (put_log s) \<and> (guarded w \<longrightarrow> snd x \<le> MAX_DEPTH_LEVEL env))"

definition depth_inv :: "environment \<Rightarrow> state \<Rightarrow> bool" where
  "depth_inv env s \<longleftrightarrow> depth_shared env s \<and> (\<forall>w \<in> set (workers s). depth_local env s w)"

text \<open>
  The host of a URL is the network location that \<^verbatim>\<open>urlparse\<close> finds in it, which is what
  line 118 compares.  A URL is in the domain of the starting URL when both parse and
  have the same host, and foreign when both parse and the hosts differ.
\<close>

definition host_of :: "string \<Rightarrow> string option" where
  "host_of url = (case urlparse url of Inl e \<Rightarrow> None | Inr p \<Rightarrow> Some (netloc p))"

definition same_host :: "string \<Rightarrow> string \<Rightarrow> bool" where
  "same_host starting_url u \<longleftrightarrow> host_of u \<noteq> None \<and> host_of u = host_of starting_url"

definition foreign_host :: "string \<Rightarrow> string \<Rightarrow> bool" where
  "foreign_host starting_url u \<longleftrightarrow>
     host_of u \<noteq> None \<and> host_of starting_url \<noteq> None \<and> host_of u \<noteq> host_of starting_url"

definition invalid_ok :: "string \<Rightarrow> (string \<times> URLError) list \<Rightarrow> bool" where
  "invalid_ok starting_url rows \<longleftrightarrow>
     (\<forall>x \<in> set rows. snd x = EXTERNAL_DOMAIN \<longrightarrow> foreign_host starting_url (fst x))"

definition frontier_ok :: "string \<Rightarrow> string \<Rightarrow> bool" where
  "frontier_ok starting_url u \<longleftrightarrow> u = starting_url \<or> same_host starting_url u"

fun host_local :: "string \<Rightarrow> wstate \<Rightarrow> bool" where
  "host_local seed (Check url level) = frontier_ok seed url"
| "host_local seed (Fetch url level) = frontier_ok seed url"
| "host_local seed (WriteValid url level url_parsed resp) =
     (urlparse url = Inr url_parsed \<and> same_host seed url)"
| "host_local seed (PushLinks url level us invalid_urls) =
     ((\<forall>u \<in> set us. same_host seed u) \<and> invalid_ok seed invalid_urls)"
| "host_local seed (Put url level u rest invalid_urls) =
     (same_host seed u \<and> (\<forall>u \<in> set rest. same_host seed u) \<and> invalid_ok seed invalid_urls)"
| "host_local seed (Except url level invalid_urls e) = invalid_ok seed invalid_urls"
| "host_local seed (WriteInvalid url level invalid_urls) = invalid_ok seed invalid_urls"
| "host_local seed w = True"

definition host_shared :: "string \<Rightarrow> state \<Rightarrow> bool" where
  "host_shared seed s \<longleftrightarrow>
     (\<forall>x \<in> set (queue s). frontier_ok seed (fst x)) \<and>
     (\<forall>x \<in> set (valid_urls_fd s). same_host seed (fst x)) \<and>
     invalid_ok seed (invalid_urls_fd s)"

definition host_inv :: "string \<Rightarrow> state \<Rightarrow> bool" where
  "host_inv seed s \<longleftrightarrow> host_shared seed s \<and> (\<forall>w \<in> set (workers s). host_local seed w)"

text \<open>
  The counter of the queue counts the items on the queue and the items held by the
  processes, ended or not.
\<close>

definition holding :: "wstate \<Rightarrow> bool" where
  "holding w \<longleftrightarrow> item_of w \<noteq> None"

definition counter_ok :: "state \<Rightarrow> bool" where
  "counter_ok s \<longleftrightarrow> unfinished s = length (queue s) + length (filter holding (workers s))"

text \<open>
  A worker in the loop of lines 124--126 still has the URL \<open>u\<close> before it: \<open>u\<close> is among
  the elements of \<^verbatim>\<open>set(valid_urls)\<close> not yet iterated, or the element about to be put
  on the queue.  \<open>puts_left\<close> bounds the number of actions that the worker makes until
  it has dealt with all of them.
\<close>

fun owes :: "string \<Rightarrow> wstate \<Rightarrow> bool" where
  "owes u (PushLinks url level us invalid_urls) = (u \<in> set us)"
| "owes u (Put url level v rest invalid_urls) = (v = u \<or> u \<in> set rest)"
| "owes u w = False"

fun puts_left :: "wstate \<Rightarrow> nat" where
  "puts_left (PushLinks url level us invalid_urls) = 2 * length us"
| "puts_left (Put url level v rest invalid_urls) = 2 * length rest + 1"
| "puts_left w = 0"

text \<open>The number of actions that a schedule gives to process \<open>i\<close>.\<close>

definition turns :: "nat \<Rightarrow> (nat \<times> nat) list \<Rightarrow> nat" where
  "turns i sched = length (filter (\<lambda>a. fst a = i) sched)"

text \<open>
  Under the schedule, from the state \<open>s\<close>, an action of process \<open>i\<close> appends the item
  \<open>x\<close> to the queue.
\<close>

fun pushes :: "environment \<Rightarrow> nat \<Rightarrow> string \<times> int \<Rightarrow> (nat \<times> nat) list \<Rightarrow> state \<Rightarrow> bool" where
  "pushes env i x [] s = False"
| "pushes env i x (a # sched) s =
     ((fst a = i \<and> queue (step env a s) = queue s @ [x]) \<or> pushes env i x sched (step env a s))"

text \<open>The bracket test of \<^verbatim>\<open>urlsplit\<close> on a network location.\<close>

definition bad_brackets :: "string \<Rightarrow> bool" where
  "bad_brackets nl \<longleftrightarrow>
     (CHR ''['' \<in> set nl \<and> CHR '']'' \<notin> set nl) \<or> (CHR '']'' \<in> set nl \<and> CHR ''['' \<notin> set nl)"

section \<open>Concrete runs\<close>

text \<open>
  A small web for evaluating runs: the page at \<open>http://x.test/\<close> is an html page with
  the given links, and every other request fails.  The machine has no symbolic links,
  no interrupt arrives and no access to the shared state raises.
\<close>

definition html_page :: "string list \<Rightarrow> fetch_outcome" where
  "html_page links =
     Response \<lparr>content_type = Some ''text/html; charset=utf-8'', html_links = Inr links, content_md5 = ''''\<rparr>"

definition x_test_web :: "int \<Rightarrow> nat \<Rightarrow> string list \<Rightarrow> environment" where
  "x_test_web depth n links =
     \<lparr>MAX_DEPTH_LEVEL = depth, cpu_count = n, host_machine = no_symlinks,
      fetch = (\<lambda>u. if u = ''http://x.test/'' then html_page links else RequestException),
      raises = (\<lambda>_. None)\<rparr>"

text \<open>
  The page that links to itself, to \<open>/a\<close> and to another host, crawled by two processes.
  In \<open>race_schedule\<close> process 0 puts the item for the page itself on the queue, process
  1 takes it and passes the test of line 65, and only then process 0 appends the URL to
  the visited URLs.  \<open>race_schedule_2\<close> goes on until both processes have fetched
  \<open>/a\<close>.
\<close>

definition self_link_web :: environment where
  "self_link_web = x_test_web 2 2 [''/'', ''/a'', ''http://other.test/b'']"

definition race_schedule :: "(nat \<times> nat) list" where
  "race_schedule = replicate 6 (0, 0) @ replicate 2 (1, 0) @ replicate 6 (0, 0) @ replicate 2 (1, 0)"

definition race_schedule_2 :: "(nat \<times> nat) list" where
  "race_schedule_2 =
     race_schedule @ replicate 3 (1, 0) @ replicate 2 (0, 0) @ replicate 6 (1, 0) @
     replicate 2 (0, 0) @ replicate 2 (1, 0)"

text \<open>
  Three webs crawled by a single process: with depth bound 0 and the link \<open>/a\<close>; with
  the malformed link of the specification; and with a link to another host, where the
  write of a row to the file of invalid URLs raises an exception (a full disk, or a
  character that the encoding of the file lacks).
\<close>

definition shallow_web :: environment where
  "shallow_web = x_test_web 0 1 [''/a'']"

definition malformed_web :: environment where
  "malformed_web = x_test_web 2 1 [''::not a url::'']"

definition failing_sink :: "wstate \<Rightarrow> py_exception option" where
  "failing_sink w =
     (case w of
        WriteInvalid url level invalid_urls \<Rightarrow> if invalid_urls = [] then None else Some OtherException
      | _ \<Rightarrow> None)"

definition failing_sink_web :: environment where
  "failing_sink_web = (x_test_web 2 1 [''http://other.test/b''])\<lparr>raises := failing_sink\<rparr>"
section \<open>Properties of the link classification\<close>

text \<open>What a successful parse says about the network location.\<close>

lemma urlsplit_rest_netloc:
  assumes "urlsplit_rest sch u = Inr (s, nl, p, q, f)"
  shows "(\<forall>c \<in> set nl. c \<notin> set ''/?#'') \<and>
         \<not> ((CHR ''['' \<in> set nl \<and> CHR '']'' \<notin> set nl) \<or> (CHR '']'' \<in> set nl \<and> CHR ''['' \<notin> set nl))"
proof (cases "take 2 u = ''//''")
  case True
  with assms show ?thesis
    unfolding urlsplit_rest_def splitnetloc_def
    by (auto simp: Let_def split: if_splits prod.splits dest: set_takeWhileD)
next
  case False
  with assms show ?thesis
    unfolding urlsplit_rest_def
    by (auto simp: Let_def split: if_splits prod.splits)
qed

lemma urlsplit_netloc:
  assumes "urlsplit url = Inr (s, nl, p, q, f)"
  shows "(\<forall>c \<in> set nl. c \<notin> set ''/?#'') \<and>
         \<not> ((CHR ''['' \<in> set nl \<and> CHR '']'' \<notin> set nl) \<or> (CHR '']'' \<in> set nl \<and> CHR ''['' \<notin> set nl))"
  using assms unfolding urlsplit_def
  by (auto simp only: Let_def split: option.splits if_splits dest!: urlsplit_rest_netloc)

lemma urlparse_netloc:
  assumes "urlparse url = Inr p"
  shows "(\<forall>c \<in> set (netloc p). c \<notin> set ''/?#'') \<and>
         \<not> ((CHR ''['' \<in> set (netloc p) \<and> CHR '']'' \<notin> set (netloc p)) \<or>
            (CHR '']'' \<in> set (netloc p) \<and> CHR ''['' \<notin> set (netloc p)))"
proof -
  from assms obtain s nl u q f where sp: "urlsplit url = Inr (s, nl, u, q, f)" and nl: "netloc p = nl"
    unfolding urlparse_def by (auto simp: Let_def split: sum.splits prod.splits if_splits)
  from urlsplit_netloc [OF sp] nl show ?thesis by simp
qed


text \<open>The outcomes of the three parts of the classification.\<close>

lemma validate_url_cases:
  obtains (interrupt) "validate_url mc u = Inr None" "interrupted mc u"
        | (raises) e where "validate_url mc u = Inl e" "urlparse u = Inl e"
        | (parsed) p where "validate_url mc u = Inr (Some p)" "urlparse u = Inr p"
  unfolding validate_url_def by (cases "urlparse u"; cases "interrupted mc u") auto

lemma check_domain_cases:
  obtains (raises) e where "check_domain mc url_parsed u = Inl e"
    | (parse_error) "check_domain mc url_parsed u = Inr (LinkInvalid u PARSE_ERROR)"
    | (external) p where "check_domain mc url_parsed u = Inr (LinkInvalid u EXTERNAL_DOMAIN)"
        "urlparse u = Inr p" "netloc p \<noteq> netloc url_parsed"
    | (internal) p where "check_domain mc url_parsed u = Inr (LinkValid u)"
        "urlparse u = Inr p" "netloc p = netloc url_parsed"
proof (cases mc u rule: validate_url_cases)
  case interrupt
  then have "check_domain mc url_parsed u = Inr (LinkInvalid u PARSE_ERROR)"
    by (simp add: check_domain_def)
  then show ?thesis by (rule that(2))
next
  case (raises e)
  then have "check_domain mc url_parsed u = Inl e" by (simp add: check_domain_def)
  then show ?thesis by (rule that(1))
next
  case (parsed p)
  show ?thesis
  proof (cases "netloc p = netloc url_parsed")
    case True
    with parsed have "check_domain mc url_parsed u = Inr (LinkValid u)" by (simp add: check_domain_def)
    with parsed True show ?thesis by (intro that(4) [of p])
  next
    case False
    with parsed have "check_domain mc url_parsed u = Inr (LinkInvalid u EXTERNAL_DOMAIN)"
      by (simp add: check_domain_def)
    with parsed False show ?thesis by (intro that(3) [of p])
  qed
qed

lemma classify_link_cases:
  obtains (raises) e where "classify_link mc url_parsed link = Inl e"
    | (parse_error) u where "classify_link mc url_parsed link = Inr (LinkInvalid u PARSE_ERROR)"
    | (external) u p where "classify_link mc url_parsed link = Inr (LinkInvalid u EXTERNAL_DOMAIN)"
        "urlparse u = Inr p" "netloc p \<noteq> netloc url_parsed"
    | (internal) u p where "classify_link mc url_parsed link = Inr (LinkValid u)"
        "urlparse u = Inr p" "netloc p = netloc url_parsed"
proof (cases mc link rule: validate_url_cases)
  case interrupt
  then have "classify_link mc url_parsed link = Inr (LinkInvalid link PARSE_ERROR)"
    by (simp add: classify_link_def)
  then show ?thesis by (rule that(2))
next
  case (raises e)
  then have "classify_link mc url_parsed link = Inl e" by (simp add: classify_link_def)
  then show ?thesis by (rule that(1))
next
  case (parsed p)
  show ?thesis
  proof (cases "resolve_link mc url_parsed p")
    case (Inl e)
    with parsed have "classify_link mc url_parsed link = Inl e" by (simp add: classify_link_def)
    then show ?thesis by (rule that(1))
  next
    case (Inr u)
    with parsed have eq: "classify_link mc url_parsed link = check_domain mc url_parsed u"
      by (simp add: classify_link_def)
    show ?thesis
    proof (cases mc url_parsed u rule: check_domain_cases)
      case (raises e)
      with eq show ?thesis by (intro that(1)) simp
    next
      case parse_error
      with eq show ?thesis by (intro that(2) [of u]) simp
    next
      case (external q)
      with eq show ?thesis by (intro that(3) [of u q]) simp_all
    next
      case (internal q)
      with eq show ?thesis by (intro that(4) [of u q]) simp_all
    qed
  qed
qed

text \<open>
  The URL \<open>scheme://host/::not a url::\<close> parses again, with the same host, when the
  host comes from a successful parse.
\<close>

lemma splitnetloc_malformed:
  assumes nl: "\<forall>c \<in> set nl. c \<notin> set ''/?#''"
  shows "splitnetloc (''//'' @ nl @ ''/::not a url::'') = (nl, ''/::not a url::'')"
proof -
  have d: "drop 2 (''//'' @ nl @ ''/::not a url::'') = nl @ ''/::not a url::''" by simp
  have tw: "takeWhile (\<lambda>c. c \<notin> set ''/?#'') (nl @ ''/::not a url::'') = nl"
    using nl by (subst takeWhile_append2) auto
  have dw: "dropWhile (\<lambda>c. c \<notin> set ''/?#'') (nl @ ''/::not a url::'') = ''/::not a url::''"
    using nl by (subst dropWhile_append2) auto
  show ?thesis unfolding splitnetloc_def d tw dw ..
qed

lemma rest_malformed:
  assumes nl: "\<forall>c \<in> set nl. c \<notin> set ''/?#''" and br: "\<not> bad_brackets nl"
  shows "urlsplit_rest sch (''//'' @ nl @ ''/::not a url::'') = Inr (sch, nl, ''/::not a url::'', '''', '''')"
  using br splitnetloc_malformed [OF nl] unfolding urlsplit_rest_def bad_brackets_def
  by simp

lemma find_colon_http: "str_find CHR '':'' (''http://'' @ r) = Some 4"
  by simp

lemma find_colon_https: "str_find CHR '':'' (''https://'' @ r) = Some 5"
  by simp

lemma split_http:
  assumes nl: "\<forall>c \<in> set nl. c \<notin> set ''/?#''" and br: "\<not> bad_brackets nl"
  shows "urlsplit (''http://'' @ nl @ ''/::not a url::'') = Inr (''http'', nl, ''/::not a url::'', '''', '''')"
proof -
  have "urlsplit (''http://'' @ nl @ ''/::not a url::'') = urlsplit_rest (lower ''http'') (''//'' @ nl @ ''/::not a url::'')"
    unfolding urlsplit_def by (simp add: find_colon_http)
  also have "lower ''http'' = ''http''" by (simp add: lower_def lower_char_def)
  finally show ?thesis using rest_malformed [OF nl br] by simp
qed

lemma split_https:
  assumes nl: "\<forall>c \<in> set nl. c \<notin> set ''/?#''" and br: "\<not> bad_brackets nl"
  shows "urlsplit (''https://'' @ nl @ ''/::not a url::'') = Inr (''https'', nl, ''/::not a url::'', '''', '''')"
proof -
  have "urlsplit (''https://'' @ nl @ ''/::not a url::'') = urlsplit_rest (lower ''https'') (''//'' @ nl @ ''/::not a url::'')"
    unfolding urlsplit_def by (simp add: find_colon_https scheme_chars_def)
  also have "lower ''https'' = ''https''" by (simp add: lower_def lower_char_def)
  finally show ?thesis using rest_malformed [OF nl br] by simp
qed

lemma parse_malformed_abs:
  assumes nl: "\<forall>c \<in> set nl. c \<notin> set ''/?#''" and br: "\<not> bad_brackets nl"
    and sch: "sch = ''http'' \<or> sch = ''https''"
  shows "urlparse (sch @ ''://'' @ nl @ ''/::not a url::'') =
    Inr \<lparr>scheme = sch, netloc = nl, path = ''/::not a url::'', params = '''', query = '''', fragment = ''''\<rparr>"
  using sch split_http [OF nl br] split_https [OF nl br]
  by (auto simp: urlparse_def)

lemma parse_malformed_rel:
  "urlparse ''::not a url::'' =
     Inr \<lparr>scheme = '''', netloc = '''', path = ''::not a url::'', params = '''', query = '''', fragment = ''''\<rparr>"
  by code_simp

text \<open>When the loop over the links completes, every accepted link is in \<^verbatim>\<open>valid_urls\<close>.\<close>

lemma links_loop_keeps:
  assumes "links_loop mc url_parsed links bad good = (None, bad', good')"
  shows "set good \<subseteq> set good' \<and>
         (\<forall>link \<in> set links. \<forall>u. classify_link mc url_parsed link = Inr (LinkValid u) \<longrightarrow> u \<in> set good')"
  using assms
proof (induction links arbitrary: bad good)
  case Nil
  then show ?case by simp
next
  case (Cons link links)
  show ?case
  proof (cases mc url_parsed link rule: classify_link_cases)
    case (raises e)
    with Cons.prems show ?thesis by simp
  next
    case (parse_error u)
    with Cons.prems have "links_loop mc url_parsed links (bad @ [(u, PARSE_ERROR)]) good = (None, bad', good')"
      by simp
    from Cons.IH [OF this] parse_error show ?thesis by simp
  next
    case (external u p)
    with Cons.prems have "links_loop mc url_parsed links (bad @ [(u, EXTERNAL_DOMAIN)]) good = (None, bad', good')"
      by simp
    from Cons.IH [OF this] external show ?thesis by simp
  next
    case (internal u p)
    with Cons.prems have "links_loop mc url_parsed links bad (good @ [u]) = (None, bad', good')"
      by simp
    from Cons.IH [OF this] internal show ?thesis by simp
  qed
qed

subsection \<open>Parent-directory segments\<close>

text \<open>
  Claim C1: a link whose path contains a parent-directory segment is collapsed against
  the path of the parent page by purely textual resolution, with a result that does not
  depend on any entry of the file system.  The code calls \<^verbatim>\<open>Path(...).resolve()\<close>
  (line 110), which follows the symbolic links of the machine that runs the crawler:
  the link \<open>../bin/ls\<close> on the page \<open>http://x.test/a\<close> becomes \<open>http://x.test/bin/ls\<close>
  on a machine without symbolic links and \<open>http://x.test/usr/bin/ls\<close> on a machine
  where \<open>/bin\<close> is a symbolic link to \<open>usr/bin\<close>.
\<close>

theorem normalizer_follows_symlinks:
  "Normalizer no_symlinks ''http://x.test/a'' ''../bin/ls'' = Inr (LinkValid ''http://x.test/bin/ls'') \<and>
   Normalizer usr_merge ''http://x.test/a'' ''../bin/ls'' = Inr (LinkValid ''http://x.test/usr/bin/ls'')"
  by code_simp

subsection \<open>Idempotence\<close>

text \<open>
  Claim C9: the Normalizer applied to its own output, with the same parent, returns it
  unchanged.  Line 109 tests whether the path contains the text \<open>..\<close>, not whether it
  has a parent-directory segment, and line 110 puts the path of the parent in front of
  the path of the link: the link \<open>a..b\<close> on the page \<open>http://x.test/p\<close> is normalised
  to \<open>http://x.test/p/a..b\<close>, and that URL is normalised to
  \<open>http://x.test/p/p/a..b\<close>.
\<close>

theorem normalizer_not_idempotent:
  "Normalizer no_symlinks ''http://x.test/p'' ''a..b'' = Inr (LinkValid ''http://x.test/p/a..b'') \<and>
   Normalizer no_symlinks ''http://x.test/p'' ''http://x.test/p/a..b'' =
     Inr (LinkValid ''http://x.test/p/p/a..b'')"
  by code_simp

subsection \<open>The malformed link\<close>

text \<open>
  \<^verbatim>\<open>urlparse\<close> accepts the raw link \<open>::not a url::\<close> as a relative path.  On a page
  whose URL has the scheme \<open>http\<close> or \<open>https\<close> and a non-empty host, the link is
  resolved to \<open>scheme://host/::not a url::\<close>, which parses again with the host of the
  page: unless an interrupt arrives during one of the two calls of \<^verbatim>\<open>validate_url\<close>,
  the link is appended to \<^verbatim>\<open>valid_urls\<close> (line 121).
\<close>

lemma classify_malformed:
  assumes "urlparse url = Inr url_parsed"
    and sch: "scheme url_parsed = ''http'' \<or> scheme url_parsed = ''https''"
    and host: "netloc url_parsed \<noteq> ''''"
    and int1: "\<not> interrupted mc ''::not a url::''"
    and int2: "\<not> interrupted mc (scheme url_parsed @ ''://'' @ netloc url_parsed @ ''/::not a url::'')"
  shows "classify_link mc url_parsed ''::not a url::'' =
           Inr (LinkValid (scheme url_parsed @ ''://'' @ netloc url_parsed @ ''/::not a url::''))"
proof -
  from urlparse_netloc [OF assms(1)]
  have nl: "\<forall>c \<in> set (netloc url_parsed). c \<notin> set ''/?#''" and br: "\<not> bad_brackets (netloc url_parsed)"
    by (auto simp: bad_brackets_def)
  have un: "urlunparse (scheme url_parsed, netloc url_parsed, ''::not a url::'', '''', '''', '''') =
      scheme url_parsed @ ''://'' @ netloc url_parsed @ ''/::not a url::''"
    using sch host by (auto simp: urlunparse_def urlunsplit_def)
  have sc: "\<not> str_contains ''..'' ''::not a url::''" by simp
  have first: "validate_url mc ''::not a url::'' =
     Inr (Some \<lparr>scheme = '''', netloc = '''', path = ''::not a url::'', params = '''', query = '''', fragment = ''''\<rparr>)"
    unfolding validate_url_def parse_malformed_rel using int1 by simp
  have res: "resolve_link mc url_parsed
       \<lparr>scheme = '''', netloc = '''', path = ''::not a url::'', params = '''', query = '''', fragment = ''''\<rparr> =
     Inr (scheme url_parsed @ ''://'' @ netloc url_parsed @ ''/::not a url::'')"
    unfolding resolve_link_def
    by (simp only: Let_def ParseResult.simps sc if_False if_True un sum.case simp_thms)
  have re: "validate_url mc (scheme url_parsed @ ''://'' @ netloc url_parsed @ ''/::not a url::'') =
      Inr (Some \<lparr>scheme = scheme url_parsed, netloc = netloc url_parsed, path = ''/::not a url::'',
                 params = '''', query = '''', fragment = ''''\<rparr>)"
    unfolding validate_url_def parse_malformed_abs [OF nl br sch] using int2 by simp
  have chk: "check_domain mc url_parsed (scheme url_parsed @ ''://'' @ netloc url_parsed @ ''/::not a url::'') =
     Inr (LinkValid (scheme url_parsed @ ''://'' @ netloc url_parsed @ ''/::not a url::''))"
    unfolding check_domain_def re by simp
  show ?thesis
    unfolding classify_link_def first
    by (simp only: sum.case option.case res chk)
qed

text \<open>
  A link is recorded with \<open>PARSE_ERROR\<close> when the interrupt arrives while
  \<^verbatim>\<open>validate_url\<close> works on it (lines 101--104).
\<close>

lemma interrupted_link:
  assumes "interrupted mc link"
  shows "classify_link mc url_parsed link = Inr (LinkInvalid link PARSE_ERROR)"
  using assms by (simp add: classify_link_def validate_url_def)
section \<open>Properties of the worker\<close>

text \<open>
  The local computation on a response has five outcomes, and a step of a process
  changes the local state of that process only.
\<close>

lemma process_response_cases:
  obtains (extract_raises) e where
      "process_response mc url level url_parsed resp = Except url level [] e"
      "is_html (content_type resp)" "html_links resp = Inl e"
    | (loop_raises) e links invalid_urls valid_urls where
      "process_response mc url level url_parsed resp = Except url level invalid_urls e"
      "is_html (content_type resp)" "html_links resp = Inr links"
      "links_loop mc url_parsed links [] [] = (Some e, invalid_urls, valid_urls)"
    | (links) links invalid_urls valid_urls where
      "process_response mc url level url_parsed resp =
         PushLinks url level (remdups valid_urls) invalid_urls"
      "is_html (content_type resp)" "html_links resp = Inr links"
      "links_loop mc url_parsed links [] [] = (None, invalid_urls, valid_urls)"
    | (image) "process_response mc url level url_parsed resp = AppendImage url level (content_md5 resp)"
      "\<not> is_html (content_type resp)" "is_image (content_type resp)"
    | (other) "process_response mc url level url_parsed resp = WriteInvalid url level []"
      "\<not> is_html (content_type resp)" "\<not> is_image (content_type resp)"
proof (cases "is_html (content_type resp)")
  case False
  then show ?thesis
    using image other by (cases "is_image (content_type resp)") (simp_all add: process_response_def)
next
  case html: True
  show ?thesis
  proof (cases "html_links resp")
    case (Inl e)
    with html show ?thesis by (intro extract_raises [of e]) (simp_all add: process_response_def)
  next
    case (Inr ls)
    obtain exc bad good where ll: "links_loop mc url_parsed ls [] [] = (exc, bad, good)"
      by (cases "links_loop mc url_parsed ls [] []") auto
    show ?thesis
    proof (cases exc)
      case None
      with html Inr ll show ?thesis
        by (intro links [of good bad ls]) (simp_all add: process_response_def)
    next
      case (Some e)
      with html Inr ll show ?thesis
        by (intro loop_raises [of bad e ls good]) (simp_all add: process_response_def)
    qed
  qed
qed

lemma process_response_item:
  "item_of (process_response mc url level url_parsed resp) = Some (url, level) \<and>
   guarded (process_response mc url level url_parsed resp)"
  by (rule process_response_cases [where mc = mc and url = url and level = level
        and url_parsed = url_parsed and resp = resp]) auto

lemma parse_url_workers [simp]: "workers (snd (parse_url env c w s)) = workers s"
  by (cases w)
     (simp_all add: Let_def split_beta
        split: list.splits sum.splits option.splits fetch_outcome.splits)

lemma step_eq:
  "i < length (workers s) \<Longrightarrow>
     step env (i, c) s =
       (snd (parse_url env c (workers s ! i) s))\<lparr>workers := (workers s)[i := fst (parse_url env c (workers s ! i) s)]\<rparr>"
  by (simp add: step_def split_beta)

lemma step_idle: "\<not> i < length (workers s) \<Longrightarrow> step env (i, c) s = s"
  by (simp add: step_def)

lemma run_Cons: "run env (a # sched) s = run env sched (step env a s)"
  by (simp add: run_def)

lemma run_append: "run env (p @ r) s = run env r (run env p s)"
  by (simp add: run_def)

subsection \<open>The depth bounds are invariant\<close>

lemma depth_local_mono:
  "set (put_log s) \<subseteq> set (put_log s') \<Longrightarrow> depth_local env s v \<Longrightarrow> depth_local env s' v"
  by (auto simp: depth_local_def split: option.splits)

lemma depth_parse_url:
  assumes "depth_shared env s" and "depth_local env s w"
  shows "depth_shared env (snd (parse_url env c w s)) \<and>
         depth_local env (snd (parse_url env c w s)) (fst (parse_url env c w s)) \<and>
         set (put_log s) \<subseteq> set (put_log (snd (parse_url env c w s)))"
proof (cases w)
  case Idle
  with assms show ?thesis
    by (auto simp: depth_shared_def depth_local_def split: list.splits option.splits)
next
  case (Check url level)
  with assms show ?thesis
    by (simp add: depth_shared_def depth_local_def split: option.splits)
next
  case (Fetch url level)
  with assms show ?thesis
    by (simp add: depth_shared_def depth_local_def split: sum.splits option.splits fetch_outcome.splits)
next
  case (WriteValid url level url_parsed resp)
  with assms process_response_item [of "host_machine env" url level url_parsed resp] show ?thesis
    by (simp add: depth_shared_def depth_local_def split: option.splits)
next
  case (AppendImage url level h)
  with assms show ?thesis
    by (simp add: depth_shared_def depth_local_def split: option.splits)
next
  case (PushLinks url level us bad)
  with assms show ?thesis
    by (simp add: depth_shared_def depth_local_def Let_def split: option.splits)
next
  case (Put url level u rest bad)
  with assms show ?thesis
    by (auto simp: depth_shared_def depth_local_def split: option.splits)
next
  case (Except url level bad e)
  with assms show ?thesis
    by (simp add: depth_shared_def depth_local_def split: option.splits)
next
  case (WriteInvalid url level bad)
  with assms show ?thesis
    by (auto simp: depth_shared_def depth_local_def split: option.splits)
next
  case (MarkVisited url level)
  with assms show ?thesis
    by (simp add: depth_shared_def depth_local_def split: option.splits)
next
  case (TaskDone url level)
  with assms show ?thesis
    by (simp add: depth_shared_def depth_local_def split: option.splits)
next
  case (Dead x)
  with assms show ?thesis by simp
qed

lemma depth_shared_workers [simp]: "depth_shared env (s\<lparr>workers := ws\<rparr>) = depth_shared env s"
  by (simp add: depth_shared_def)

lemma depth_local_workers [simp]: "depth_local env (s\<lparr>workers := ws\<rparr>) w = depth_local env s w"
  by (simp add: depth_local_def split: option.splits)

lemma depth_inv_step:
  assumes "depth_inv env s"
  shows "depth_inv env (step env a s)"
proof -
  obtain i c where a: "a = (i, c)" by (cases a)
  show ?thesis
  proof (cases "i < length (workers s)")
    case False
    with assms a show ?thesis by (simp add: step_idle)
  next
    case True
    define r where "r = parse_url env c (workers s ! i) s"
    from True have mem: "workers s ! i \<in> set (workers s)" by simp
    from assms mem have "depth_shared env s" "depth_local env s (workers s ! i)"
      by (auto simp: depth_inv_def)
    from depth_parse_url [OF this, of c]
    have sh: "depth_shared env (snd r)" and lo: "depth_local env (snd r) (fst r)"
      and mono: "set (put_log s) \<subseteq> set (put_log (snd r))" by (simp_all add: r_def)
    have "depth_local env (snd r) v" if "v \<in> set ((workers s)[i := fst r])" for v
    proof -
      from that set_update_subset_insert [of "workers s" i "fst r"]
      have "v = fst r \<or> v \<in> set (workers s)" by auto
      with lo depth_local_mono [OF mono] assms show ?thesis by (auto simp: depth_inv_def)
    qed
    with sh show ?thesis
      unfolding a step_eq [OF True] depth_inv_def r_def [symmetric] by simp
  qed
qed

lemma depth_inv_run: "depth_inv env s \<Longrightarrow> depth_inv env (run env sched s)"
  unfolding run_def by (induction sched arbitrary: s) (simp_all add: depth_inv_step)

lemma depth_inv_Crawler: "depth_inv env (Crawler env starting_url)"
  by (auto simp: depth_inv_def depth_shared_def depth_local_def Crawler_def)

lemma depth_inv_crawl: "depth_inv env (crawl env starting_url sched)"
  unfolding crawl_def by (intro depth_inv_run depth_inv_Crawler)

subsection \<open>The domain is invariant\<close>

lemma links_loop_hosts:
  assumes "links_loop mc url_parsed links bad good = (exc, bad', good')"
    and "\<forall>x \<in> set bad. snd x = EXTERNAL_DOMAIN \<longrightarrow> host_of (fst x) \<noteq> None \<and> host_of (fst x) \<noteq> Some (netloc url_parsed)"
    and "\<forall>u \<in> set good. host_of u = Some (netloc url_parsed)"
  shows "(\<forall>x \<in> set bad'. snd x = EXTERNAL_DOMAIN \<longrightarrow> host_of (fst x) \<noteq> None \<and> host_of (fst x) \<noteq> Some (netloc url_parsed)) \<and>
         (\<forall>u \<in> set good'. host_of u = Some (netloc url_parsed))"
  using assms
proof (induction links arbitrary: bad good)
  case Nil
  then show ?case by simp
next
  case (Cons link links)
  show ?case
  proof (cases mc url_parsed link rule: classify_link_cases)
    case (raises e)
    with Cons.prems show ?thesis by simp
  next
    case (parse_error u)
    with Cons.prems have "links_loop mc url_parsed links (bad @ [(u, PARSE_ERROR)]) good = (exc, bad', good')"
      by simp
    moreover from Cons.prems(2)
    have "\<forall>x \<in> set (bad @ [(u, PARSE_ERROR)]). snd x = EXTERNAL_DOMAIN \<longrightarrow>
        host_of (fst x) \<noteq> None \<and> host_of (fst x) \<noteq> Some (netloc url_parsed)"
      by simp
    ultimately show ?thesis using Cons.prems(3) by (rule Cons.IH)
  next
    case (external u p)
    with Cons.prems have "links_loop mc url_parsed links (bad @ [(u, EXTERNAL_DOMAIN)]) good = (exc, bad', good')"
      by simp
    moreover from external Cons.prems(2)
    have "\<forall>x \<in> set (bad @ [(u, EXTERNAL_DOMAIN)]). snd x = EXTERNAL_DOMAIN \<longrightarrow>
        host_of (fst x) \<noteq> None \<and> host_of (fst x) \<noteq> Some (netloc url_parsed)"
      by (simp add: host_of_def)
    ultimately show ?thesis using Cons.prems(3) by (rule Cons.IH)
  next
    case (internal u p)
    with Cons.prems have "links_loop mc url_parsed links bad (good @ [u]) = (exc, bad', good')"
      by simp
    moreover note Cons.prems(2)
    moreover from internal Cons.prems(3)
    have "\<forall>u \<in> set (good @ [u]). host_of u = Some (netloc url_parsed)"
      by (simp add: host_of_def)
    ultimately show ?thesis by (rule Cons.IH)
  qed
qed

lemma invalid_ok_simps [simp]:
  "invalid_ok seed []"
  "invalid_ok seed (xs @ ys) \<longleftrightarrow> invalid_ok seed xs \<and> invalid_ok seed ys"
  "invalid_ok seed [(u, DOWNLOAD_ERROR)]"
  "invalid_ok seed [(u, PARSE_ERROR)]"
  by (auto simp: invalid_ok_def)

lemma process_response_hosts:
  assumes "urlparse url = Inr url_parsed" and "same_host seed url"
  shows "host_local seed (process_response mc url level url_parsed resp)"
proof -
  from assms have hs: "host_of seed = Some (netloc url_parsed)"
    by (simp add: same_host_def host_of_def)
  have loop: "(\<forall>u \<in> set good. same_host seed u) \<and> invalid_ok seed bad"
    if "links_loop mc url_parsed links [] [] = (exc, bad, good)" for links exc bad good
    using links_loop_hosts [OF that] hs
    by (simp add: same_host_def invalid_ok_def foreign_host_def)
  show ?thesis
  proof (rule process_response_cases [where mc = mc and url = url and level = level
        and url_parsed = url_parsed and resp = resp])
    fix e assume "process_response mc url level url_parsed resp = Except url level [] e"
    then show ?thesis by simp
  next
    fix e links invalid_urls valid_urls
    assume "process_response mc url level url_parsed resp = Except url level invalid_urls e"
      and "links_loop mc url_parsed links [] [] = (Some e, invalid_urls, valid_urls)"
    with loop show ?thesis by simp
  next
    fix links invalid_urls valid_urls
    assume "process_response mc url level url_parsed resp = PushLinks url level (remdups valid_urls) invalid_urls"
      and "links_loop mc url_parsed links [] [] = (None, invalid_urls, valid_urls)"
    with loop show ?thesis by simp
  next
    assume "process_response mc url level url_parsed resp = AppendImage url level (content_md5 resp)"
    then show ?thesis by simp
  next
    assume "process_response mc url level url_parsed resp = WriteInvalid url level []"
    then show ?thesis by simp
  qed
qed

lemma validate_url_frontier:
  assumes "validate_url mc url = Inr (Some p)" and "frontier_ok seed url"
  shows "urlparse url = Inr p \<and> same_host seed url"
proof -
  from assms(1) have "urlparse url = Inr p"
    by (simp add: validate_url_def split: sum.splits if_splits)
  with assms(2) show ?thesis
    by (auto simp: frontier_ok_def same_host_def host_of_def)
qed

lemma remove_nth_subset: "set (take k us @ drop (Suc k) us) \<subseteq> set us"
  by (auto dest: in_set_takeD in_set_dropD)

lemma host_parse_url:
  assumes "host_shared seed s" and "host_local seed w"
  shows "host_shared seed (snd (parse_url env c w s)) \<and> host_local seed (fst (parse_url env c w s))"
proof (cases w)
  case Idle
  with assms show ?thesis
    by (auto simp: host_shared_def split: list.splits option.splits)
next
  case (Check url level)
  with assms show ?thesis by (simp add: host_shared_def split: option.splits)
next
  case (Fetch url level)
  show ?thesis
  proof (cases "raises env (Fetch url level)")
    case (Some e)
    with assms Fetch show ?thesis by simp
  next
    case no: None
    show ?thesis
    proof (cases "validate_url (host_machine env) url")
      case (Inl e)
      with no assms Fetch show ?thesis by (simp add: host_shared_def)
    next
      case (Inr r)
      show ?thesis
      proof (cases r)
        case None
        with no Inr assms Fetch show ?thesis by (simp add: host_shared_def)
      next
        case (Some p)
        with no Inr assms Fetch validate_url_frontier [of "host_machine env" url p seed] show ?thesis
          by (cases "fetch env url") (simp_all add: host_shared_def)
      qed
    qed
  qed
next
  case (WriteValid url level url_parsed resp)
  with assms process_response_hosts [of url url_parsed seed "host_machine env" level resp] show ?thesis
    by (simp add: host_shared_def split: option.splits)
next
  case (AppendImage url level h)
  with assms show ?thesis by (simp add: host_shared_def split: option.splits)
next
  case (PushLinks url level us bad)
  show ?thesis
  proof (cases "us = []")
    case True
    with assms PushLinks show ?thesis by simp
  next
    case False
    then have "c mod length us < length us" by simp
    then have "us ! (c mod length us) \<in> set us" by simp
    with assms PushLinks False remove_nth_subset [of "c mod length us" us] show ?thesis
      by (auto simp: Let_def split: option.splits)
  qed
next
  case (Put url level u rest bad)
  with assms show ?thesis by (simp add: host_shared_def frontier_ok_def split: option.splits)
next
  case (Except url level bad e)
  with assms show ?thesis by (simp add: host_shared_def split: option.splits)
next
  case (WriteInvalid url level bad)
  with assms show ?thesis by (simp add: host_shared_def split: option.splits)
next
  case (MarkVisited url level)
  with assms show ?thesis by (simp add: host_shared_def split: option.splits)
next
  case (TaskDone url level)
  with assms show ?thesis by (simp add: host_shared_def split: option.splits)
next
  case (Dead x)
  with assms show ?thesis by simp
qed

lemma host_shared_workers [simp]: "host_shared seed (s\<lparr>workers := ws\<rparr>) = host_shared seed s"
  by (simp add: host_shared_def)

lemma host_inv_step:
  assumes "host_inv seed s"
  shows "host_inv seed (step env a s)"
proof -
  obtain i c where a: "a = (i, c)" by (cases a)
  show ?thesis
  proof (cases "i < length (workers s)")
    case False
    with assms a show ?thesis by (simp add: step_idle)
  next
    case True
    define r where "r = parse_url env c (workers s ! i) s"
    from True have mem: "workers s ! i \<in> set (workers s)" by simp
    from assms mem have "host_shared seed s" "host_local seed (workers s ! i)"
      by (auto simp: host_inv_def)
    from host_parse_url [OF this, of env c]
    have sh: "host_shared seed (snd r)" and lo: "host_local seed (fst r)"
      by (simp_all add: r_def)
    have "host_local seed v" if "v \<in> set ((workers s)[i := fst r])" for v
    proof -
      from that set_update_subset_insert [of "workers s" i "fst r"]
      have "v = fst r \<or> v \<in> set (workers s)" by auto
      with lo assms show ?thesis by (auto simp: host_inv_def)
    qed
    with sh show ?thesis
      unfolding a step_eq [OF True] host_inv_def r_def [symmetric] by simp
  qed
qed

lemma host_inv_run: "host_inv seed s \<Longrightarrow> host_inv seed (run env sched s)"
  unfolding run_def by (induction sched arbitrary: s) (simp_all add: host_inv_step)

lemma host_inv_Crawler: "host_inv seed (Crawler env seed)"
  by (auto simp: host_inv_def host_shared_def Crawler_def frontier_ok_def invalid_ok_def)

lemma host_inv_crawl: "host_inv seed (crawl env seed sched)"
  unfolding crawl_def by (intro host_inv_run host_inv_Crawler)

subsection \<open>The counter of the queue\<close>

lemma filter_update_length:
  "i < length xs \<Longrightarrow>
     length (filter P (xs[i := y])) + (if P (xs ! i) then 1 else 0) =
     length (filter P xs) + (if P y then 1 else 0)"
proof (induction xs arbitrary: i)
  case Nil
  then show ?case by simp
next
  case (Cons x xs)
  show ?case
  proof (cases i)
    case 0
    then show ?thesis by simp
  next
    case (Suc j)
    with Cons.prems have "j < length xs" by simp
    from Cons.IH [OF this] Suc show ?thesis by simp
  qed
qed

lemma process_response_holding: "holding (process_response mc url level url_parsed resp)"
  using process_response_item [of mc url level url_parsed resp] by (simp add: holding_def)

lemma counter_parse_url:
  assumes "unfinished s = length (queue s) + n" and "holding w \<longrightarrow> 1 \<le> n"
  shows "unfinished (snd (parse_url env c w s)) + (if holding w then 1 else 0) =
           length (queue (snd (parse_url env c w s))) + n + (if holding (fst (parse_url env c w s)) then 1 else 0)"
proof (cases w)
  case Idle
  with assms show ?thesis by (simp add: holding_def split: list.splits option.splits)
next
  case (Check url level)
  with assms show ?thesis by (simp add: holding_def split: option.splits)
next
  case (Fetch url level)
  with assms show ?thesis
    by (simp add: holding_def split: sum.splits option.splits fetch_outcome.splits)
next
  case (WriteValid url level url_parsed resp)
  with assms process_response_holding [of "host_machine env" url level url_parsed resp]
  show ?thesis by (simp add: holding_def split: option.splits)
next
  case (AppendImage url level h)
  with assms show ?thesis by (simp add: holding_def split: option.splits)
next
  case (PushLinks url level us bad)
  with assms show ?thesis by (simp add: holding_def Let_def split: option.splits)
next
  case (Put url level u rest bad)
  with assms show ?thesis by (simp add: holding_def split: option.splits)
next
  case (Except url level bad e)
  with assms show ?thesis by (simp add: holding_def split: option.splits)
next
  case (WriteInvalid url level bad)
  with assms show ?thesis by (simp add: holding_def split: option.splits)
next
  case (MarkVisited url level)
  with assms show ?thesis by (simp add: holding_def split: option.splits)
next
  case (TaskDone url level)
  with assms show ?thesis by (simp add: holding_def split: option.splits)
next
  case (Dead x)
  with assms show ?thesis by simp
qed

lemma holding_positive:
  assumes "w \<in> set ws" and "holding w"
  shows "1 \<le> length (filter holding ws)"
proof -
  from assms have "filter holding ws \<noteq> []" by (auto simp: filter_empty_conv)
  then show ?thesis by (cases "filter holding ws") simp_all
qed

lemma counter_ok_step:
  assumes "counter_ok s"
  shows "counter_ok (step env a s)"
proof -
  obtain i c where a: "a = (i, c)" by (cases a)
  show ?thesis
  proof (cases "i < length (workers s)")
    case False
    with assms a show ?thesis by (simp add: step_idle)
  next
    case True
    define w where "w = workers s ! i"
    define r where "r = parse_url env c w s"
    define n where "n = length (filter holding (workers s))"
    from True have mem: "w \<in> set (workers s)" by (simp add: w_def)
    from assms have cnt: "unfinished s = length (queue s) + n" by (simp add: counter_ok_def n_def)
    from holding_positive [OF mem] have pos: "holding w \<longrightarrow> 1 \<le> n" by (simp add: n_def)
    from counter_parse_url [OF cnt pos, of env c]
    have eq: "unfinished (snd r) + (if holding w then 1 else 0) =
         length (queue (snd r)) + n + (if holding (fst r) then 1 else 0)"
      by (simp add: r_def)
    from filter_update_length [OF True, of holding "fst r"]
    have upd: "length (filter holding ((workers s)[i := fst r])) + (if holding w then 1 else 0) =
       n + (if holding (fst r) then 1 else 0)" by (simp add: w_def n_def)
    from eq upd have "unfinished (snd r) =
       length (queue (snd r)) + length (filter holding ((workers s)[i := fst r]))" by simp
    then show ?thesis
      unfolding a step_eq [OF True] counter_ok_def r_def w_def by simp
  qed
qed

lemma counter_ok_run: "counter_ok s \<Longrightarrow> counter_ok (run env sched s)"
  unfolding run_def by (induction sched arbitrary: s) (simp_all add: counter_ok_step)

lemma counter_ok_Crawler: "counter_ok (Crawler env seed)"
  by (simp add: counter_ok_def Crawler_def holding_def)

lemma counter_ok_crawl: "counter_ok (crawl env seed sched)"
  unfolding crawl_def by (intro counter_ok_run counter_ok_Crawler)

subsection \<open>The loop that puts the links on the queue\<close>

lemma parse_url_visited_mono:
  "set (visited_urls s) \<subseteq> set (visited_urls (snd (parse_url env c w s)))"
  by (cases w)
     (simp_all add: Let_def subset_insertI2
        split: list.splits sum.splits option.splits fetch_outcome.splits)

lemma step_own:
  assumes "i < length (workers s)"
  shows "length (workers (step env (i, c) s)) = length (workers s)"
    and "workers (step env (i, c) s) ! i = fst (parse_url env c (workers s ! i) s)"
    and "queue (step env (i, c) s) = queue (snd (parse_url env c (workers s ! i) s))"
    and "unfinished (step env (i, c) s) = unfinished (snd (parse_url env c (workers s ! i) s))"
    and "visited_urls (step env (i, c) s) = visited_urls (snd (parse_url env c (workers s ! i) s))"
    and "duplicate_images_urls (step env (i, c) s) = duplicate_images_urls (snd (parse_url env c (workers s ! i) s))"
    and "valid_urls_fd (step env (i, c) s) = valid_urls_fd (snd (parse_url env c (workers s ! i) s))"
    and "invalid_urls_fd (step env (i, c) s) = invalid_urls_fd (snd (parse_url env c (workers s ! i) s))"
    and "stdout (step env (i, c) s) = stdout (snd (parse_url env c (workers s ! i) s))"
    and "stderr (step env (i, c) s) = stderr (snd (parse_url env c (workers s ! i) s))"
  using assms by (simp_all add: step_eq)

lemma step_other:
  assumes "fst a \<noteq> i"
  shows "workers (step env a s) ! i = workers s ! i \<and> length (workers (step env a s)) = length (workers s)"
proof -
  obtain j c where a: "a = (j, c)" by (cases a)
  with assms show ?thesis
    by (cases "j < length (workers s)") (simp_all add: step_eq step_idle)
qed

lemma step_visited_mono: "set (visited_urls s) \<subseteq> set (visited_urls (step env a s))"
proof -
  obtain i c where a: "a = (i, c)" by (cases a)
  show ?thesis
    using parse_url_visited_mono [of s env c "workers s ! i"]
    by (cases "i < length (workers s)") (simp_all add: a step_eq step_idle)
qed

lemma run_visited_mono: "set (visited_urls s) \<subseteq> set (visited_urls (run env sched s))"
proof (induction sched arbitrary: s)
  case Nil
  show ?case by (simp add: run_def)
next
  case (Cons a sched)
  from Cons [of "step env a s"] step_visited_mono [of s env a] show ?case
    by (auto simp: run_Cons)
qed

lemma links_loop_length:
  "links_loop mc url_parsed links bad good = (exc, bad', good') \<Longrightarrow>
     length good' \<le> length good + length links"
proof (induction links arbitrary: bad good)
  case Nil
  then show ?case by simp
next
  case (Cons link links)
  show ?case
  proof (cases "classify_link mc url_parsed link")
    case (Inl e)
    with Cons.prems show ?thesis by simp
  next
    case (Inr cl)
    show ?thesis
    proof (cases cl)
      case (LinkInvalid u k)
      with Inr Cons.prems have "links_loop mc url_parsed links (bad @ [(u, k)]) good = (exc, bad', good')"
        by simp
      from Cons.IH [OF this] show ?thesis by simp
    next
      case (LinkValid u)
      with Inr Cons.prems have "links_loop mc url_parsed links bad (good @ [u]) = (exc, bad', good')"
        by simp
      from Cons.IH [OF this] show ?thesis by simp
    qed
  qed
qed

lemma remove_nth_mem:
  assumes "k < length us" and "u \<in> set us"
  shows "u = us ! k \<or> u \<in> set (take k us @ drop (Suc k) us)"
proof -
  have "set us = set (take k us @ us ! k # drop (Suc k) us)"
    by (rule arg_cong [where f = set, OF id_take_nth_drop [OF assms(1)]])
  with assms(2) have "u \<in> set (take k us @ us ! k # drop (Suc k) us)" by blast
  then show ?thesis by auto
qed

text \<open>
  One action of a worker that still has the URL \<open>u\<close> before it in the loop of lines
  124--126, when the access to the shared state does not raise: the worker puts \<open>u\<close> on
  the queue at the next depth, or finds it among the visited URLs, or still has it
  before it and has fewer actions left.
\<close>

lemma owes_advance:
  assumes "owes u w" and "item_of w = Some (url, level)" and "raises env w = None"
    and "puts_left w \<le> Suc n"
  shows "(owes u (fst (parse_url env c w s)) \<and> item_of (fst (parse_url env c w s)) = Some (url, level) \<and>
            puts_left (fst (parse_url env c w s)) \<le> n) \<or>
         queue (snd (parse_url env c w s)) = queue s @ [(u, level + 1)] \<or>
         u \<in> set (visited_urls (snd (parse_url env c w s)))"
proof (cases w)
  case (PushLinks url' level' us bad)
  with assms have ul: "url' = url" "level' = level" and mem: "u \<in> set us"
    and nr: "raises env (PushLinks url level us bad) = None" and le: "2 * length us \<le> Suc n"
    by simp_all
  from mem have ne: "us \<noteq> []" by auto
  define k where "k = c mod length us"
  define rest where "rest = take k us @ drop (Suc k) us"
  from ne have k: "k < length us" by (simp add: k_def)
  then have len: "length us = Suc (length rest)" by (simp add: rest_def)
  from remove_nth_mem [OF k mem] have cases: "u = us ! k \<or> u \<in> set rest" by (simp add: rest_def)
  have eq: "parse_url env c w s =
      (if us ! k \<notin> set (visited_urls s) then Put url level (us ! k) rest bad
       else PushLinks url level rest bad, s)"
    using ne nr by (simp add: PushLinks ul Let_def k_def rest_def)
  show ?thesis
  proof (cases "us ! k \<in> set (visited_urls s)")
    case True
    with eq cases le len show ?thesis by auto
  next
    case False
    with eq cases le len show ?thesis by auto
  qed
next
  case (Put url' level' v rest bad)
  with assms show ?thesis by auto
qed (use assms in simp_all)

lemma owes_run:
  assumes nr: "\<forall>w. item_of w = Some (url, level) \<longrightarrow> raises env w = None"
    and "i < length (workers s)" and "owes u (workers s ! i)"
    and "item_of (workers s ! i) = Some (url, level)"
    and "puts_left (workers s ! i) \<le> turns i sched"
  shows "pushes env i (u, level + 1) sched s \<or> u \<in> set (visited_urls (run env sched s))"
  using assms(2-)
proof (induction sched arbitrary: s)
  case Nil
  then have "owes u (workers s ! i)" "puts_left (workers s ! i) = 0" by (simp_all add: turns_def)
  then show ?case by (cases "workers s ! i") auto
next
  case (Cons a sched)
  show ?case
  proof (cases "fst a = i")
    case False
    with step_other [OF False, of env s] Cons.prems
    have "pushes env i (u, level + 1) sched (step env a s) \<or>
          u \<in> set (visited_urls (run env sched (step env a s)))"
      by (intro Cons.IH) (simp_all add: turns_def)
    then show ?thesis by (auto simp: run_Cons)
  next
    case True
    then obtain c where a: "a = (i, c)" by (cases a) simp
    from Cons.prems(4) have le: "puts_left (workers s ! i) \<le> Suc (turns i sched)"
      by (simp add: turns_def a)
    from nr Cons.prems(3) have "raises env (workers s ! i) = None" by blast
    from owes_advance [OF Cons.prems(2,3) this le, of c s]
    consider (more) "owes u (workers (step env a s) ! i)"
        "item_of (workers (step env a s) ! i) = Some (url, level)"
        "puts_left (workers (step env a s) ! i) \<le> turns i sched"
      | (put) "queue (step env a s) = queue s @ [(u, level + 1)]"
      | (visited) "u \<in> set (visited_urls (step env a s))"
      unfolding a using step_own [OF Cons.prems(1), of env c] by auto
    then show ?thesis
    proof cases
      case more
      with Cons.prems(1) step_own(1) [OF Cons.prems(1), of env c]
      have "pushes env i (u, level + 1) sched (step env a s) \<or>
          u \<in> set (visited_urls (run env sched (step env a s)))"
        by (intro Cons.IH) (simp_all add: a)
      then show ?thesis by (auto simp: run_Cons)
    next
      case put
      with True show ?thesis by simp
    next
      case visited
      with run_visited_mono [of "step env a s" env sched] show ?thesis by (auto simp: run_Cons)
    qed
  qed
qed

text \<open>The same from the point where the row of the page is about to be written.\<close>

lemma page_run:
  assumes nr: "\<forall>w. item_of w = Some (url, level) \<longrightarrow> raises env w = None"
    and html: "is_html (content_type resp)" and hl: "html_links resp = Inr links"
    and ll: "links_loop (host_machine env) url_parsed links [] [] = (None, bad, good)"
    and mem: "u \<in> set good"
    and "i < length (workers s)" and "workers s ! i = WriteValid url level url_parsed resp"
    and "2 * length links + 1 \<le> turns i sched"
  shows "pushes env i (u, level + 1) sched s \<or> u \<in> set (visited_urls (run env sched s))"
  using assms(6-)
proof (induction sched arbitrary: s)
  case Nil
  then show ?case by (simp add: turns_def)
next
  case (Cons a sched)
  show ?case
  proof (cases "fst a = i")
    case False
    with step_other [OF False, of env s] Cons.prems
    have "pushes env i (u, level + 1) sched (step env a s) \<or>
          u \<in> set (visited_urls (run env sched (step env a s)))"
      by (intro Cons.IH) (simp_all add: turns_def)
    then show ?thesis by (auto simp: run_Cons)
  next
    case True
    then obtain c where a: "a = (i, c)" by (cases a) simp
    from nr have "raises env (WriteValid url level url_parsed resp) = None" by simp
    moreover from html hl ll
    have "process_response (host_machine env) url level url_parsed resp = PushLinks url level (remdups good) bad"
      by (simp add: process_response_def)
    ultimately have w: "workers (step env a s) ! i = PushLinks url level (remdups good) bad"
      using step_own(2) [OF Cons.prems(1), of env c] Cons.prems(2) by (simp add: a)
    from links_loop_length [OF ll] have "length good \<le> length links" by simp
    with length_remdups_leq [of good] have "length (remdups good) \<le> length links" by (rule le_trans)
    with Cons.prems(3) have "2 * length (remdups good) \<le> turns i sched" by (simp add: turns_def a)
    with w mem Cons.prems(1) step_own(1) [OF Cons.prems(1), of env c]
    have "pushes env i (u, level + 1) sched (step env a s) \<or>
          u \<in> set (visited_urls (run env sched (step env a s)))"
      by (intro owes_run [OF nr]) (simp_all add: a)
    then show ?thesis by (auto simp: run_Cons)
  qed
qed

subsection \<open>Processes that have ended\<close>

lemma dead_step:
  assumes "\<forall>w \<in> set (workers s). \<exists>x. w = Dead x"
  shows "step env a s = s"
proof -
  obtain i c where a: "a = (i, c)" by (cases a)
  show ?thesis
  proof (cases "i < length (workers s)")
    case False
    then show ?thesis by (simp add: a step_idle)
  next
    case True
    with assms obtain x where x: "workers s ! i = Dead x" by force
    then have "(workers s)[i := Dead x] = workers s" by (metis list_update_id)
    with True x show ?thesis by (simp add: a step_eq)
  qed
qed

lemma dead_run:
  assumes "\<forall>w \<in> set (workers s). \<exists>x. w = Dead x"
  shows "run env sched s = s"
proof (induction sched)
  case Nil
  show ?case by (simp add: run_def)
next
  case (Cons a sched)
  have "run env (a # sched) s = run env sched (step env a s)" by (rule run_Cons)
  also have "step env a s = s" using assms by (rule dead_step)
  also note Cons.IH
  finally show ?case .
qed

section \<open>Properties of runs\<close>

text \<open>
  Runs of a single worker on the page \<open>http://x.test/\<close> with the link \<open>/a\<close>, at depth
  bound 0: after the link has been put on the queue, after the page has been marked
  done, after the item for \<open>/a\<close> has been taken from the queue, and at the end.
\<close>

lemma shallow_run_6:
  "crawl shallow_web ''http://x.test/'' (replicate 6 (0, 0)) =
   \<lparr>queue = [(''http://x.test/a'', 1)], unfinished = 2, visited_urls = [],
    duplicate_images_urls = [], valid_urls_fd = [(''http://x.test/'', 0)],
    invalid_urls_fd = [], stdout = [(''http://x.test/'', 0)], stderr = [],
    workers = [PushLinks ''http://x.test/'' 0 [] []],
    put_log = [(''http://x.test/'', 0), (''http://x.test/a'', 1)],
    fetch_log = [(''http://x.test/'', 0)], invalid_items = [], done_log = []\<rparr>"
  by code_simp

lemma shallow_run_10:
  "crawl shallow_web ''http://x.test/'' (replicate 10 (0, 0)) =
   \<lparr>queue = [(''http://x.test/a'', 1)], unfinished = 1, visited_urls = [''http://x.test/''],
    duplicate_images_urls = [], valid_urls_fd = [(''http://x.test/'', 0)],
    invalid_urls_fd = [], stdout = [(''http://x.test/'', 0)], stderr = [],
    workers = [Idle],
    put_log = [(''http://x.test/'', 0), (''http://x.test/a'', 1)],
    fetch_log = [(''http://x.test/'', 0)], invalid_items = [],
    done_log = [(''http://x.test/'', 0)]\<rparr>"
  by code_simp

lemma shallow_run_11:
  "crawl shallow_web ''http://x.test/'' (replicate 11 (0, 0)) =
   \<lparr>queue = [], unfinished = 1, visited_urls = [''http://x.test/''],
    duplicate_images_urls = [], valid_urls_fd = [(''http://x.test/'', 0)],
    invalid_urls_fd = [], stdout = [(''http://x.test/'', 0)], stderr = [],
    workers = [TaskDone ''http://x.test/a'' 1],
    put_log = [(''http://x.test/'', 0), (''http://x.test/a'', 1)],
    fetch_log = [(''http://x.test/'', 0)], invalid_items = [],
    done_log = [(''http://x.test/'', 0)]\<rparr>"
  by code_simp

lemma shallow_run_12:
  "crawl shallow_web ''http://x.test/'' (replicate 12 (0, 0)) =
   \<lparr>queue = [], unfinished = 0, visited_urls = [''http://x.test/''],
    duplicate_images_urls = [], valid_urls_fd = [(''http://x.test/'', 0)],
    invalid_urls_fd = [], stdout = [(''http://x.test/'', 0)], stderr = [],
    workers = [Idle],
    put_log = [(''http://x.test/'', 0), (''http://x.test/a'', 1)],
    fetch_log = [(''http://x.test/'', 0)], invalid_items = [],
    done_log = [(''http://x.test/'', 0), (''http://x.test/a'', 1)]\<rparr>"
  by code_simp

text \<open>The state of the two processes after \<open>race_schedule\<close>.\<close>

lemma race_state:
  "crawl self_link_web ''http://x.test/'' race_schedule =
   \<lparr>queue = [(''http://x.test/a'', 1)], unfinished = 2,
    visited_urls = [''http://x.test/''], duplicate_images_urls = [],
    valid_urls_fd = [(''http://x.test/'', 0), (''http://x.test/'', 1)],
    invalid_urls_fd = [(''http://other.test/b'', EXTERNAL_DOMAIN)],
    stdout = [(''http://x.test/'', 0), (''http://x.test/'', 1)], stderr = [],
    workers = [Idle, PushLinks ''http://x.test/'' 1 [''http://x.test/'', ''http://x.test/a'']
        [(''http://other.test/b'', EXTERNAL_DOMAIN)]],
    put_log = [(''http://x.test/'', 0), (''http://x.test/'', 1), (''http://x.test/a'', 1)],
    fetch_log = [(''http://x.test/'', 0), (''http://x.test/'', 1)],
    invalid_items = [(''http://x.test/'', 0)],
    done_log = [(''http://x.test/'', 0)]\<rparr>"
  by code_simp

text \<open>
  The single process on the page whose only link is \<open>::not a url::\<close>, about to write
  the row of the page.
\<close>

lemma malformed_run_3:
  "crawl malformed_web ''http://x.test/'' (replicate 3 (0, 0)) =
   \<lparr>queue = [], unfinished = 1, visited_urls = [], duplicate_images_urls = [],
    valid_urls_fd = [], invalid_urls_fd = [],
    stdout = [(''http://x.test/'', 0)], stderr = [],
    workers =
      [WriteValid ''http://x.test/'' 0
        \<lparr>scheme = ''http'', netloc = ''x.test'', path = ''/'', params = [],
           query = [], fragment = []\<rparr>
        \<lparr>content_type = Some ''text/html; charset=utf-8'',
           html_links = Inr [''::not a url::''], content_md5 = []\<rparr>],
    put_log = [(''http://x.test/'', 0)],
    fetch_log = [(''http://x.test/'', 0)], invalid_items = [],
    done_log = []\<rparr>"
  by code_simp

subsection \<open>The malformed link\<close>

text \<open>
  Claim C2, as the code has it.  Take a page whose URL has the scheme \<open>http\<close> or
  \<open>https\<close> and a non-empty host, and suppose that no interrupt arrives while
  \<^verbatim>\<open>validate_url\<close> works on the raw link \<open>::not a url::\<close> and on the URL
  \<open>scheme://host/::not a url::\<close>.
  \<^item> The link is not rejected: it is resolved to that URL and classified as a link of
    the domain of the page (line 121), not recorded with \<open>PARSE_ERROR\<close>.
  \<^item> Let a process be about to write the row of such a page, an html page with the
    link among its links, let the loop over the links complete, and let no access to
    the shared state raise while the process holds the item.  Under every schedule
    that gives the process \<open>2 * length links + 1\<close> actions, however the actions of the
    other processes are interleaved, an action of the process appends the URL to the
    queue at the next depth, unless the URL is among the visited URLs at the end.
\<close>

theorem malformed_link_pushed:
  assumes "urlparse url = Inr url_parsed"
    and "scheme url_parsed = ''http'' \<or> scheme url_parsed = ''https''"
    and "netloc url_parsed \<noteq> ''''"
    and "new = scheme url_parsed @ ''://'' @ netloc url_parsed @ ''/::not a url::''"
    and "\<not> interrupted (host_machine env) ''::not a url::''"
    and "\<not> interrupted (host_machine env) new"
  shows "classify_link (host_machine env) url_parsed ''::not a url::'' = Inr (LinkValid new) \<and>
         (i < length (workers s) \<and> workers s ! i = WriteValid url level url_parsed resp \<and>
          is_html (content_type resp) \<and> html_links resp = Inr links \<and>
          ''::not a url::'' \<in> set links \<and>
          fst (links_loop (host_machine env) url_parsed links [] []) = None \<and>
          (\<forall>w. item_of w = Some (url, level) \<longrightarrow> raises env w = None) \<and>
          2 * length links + 1 \<le> turns i sched \<longrightarrow>
            pushes env i (new, level + 1) sched s \<or> new \<in> set (visited_urls (run env sched s)))"
proof -
  from assms(5,6) have cl: "classify_link (host_machine env) url_parsed ''::not a url::'' = Inr (LinkValid new)"
    unfolding assms(4) by (rule classify_malformed [OF assms(1-3)])
  have push: "pushes env i (new, level + 1) sched s \<or> new \<in> set (visited_urls (run env sched s))"
    if i: "i < length (workers s)" and w: "workers s ! i = WriteValid url level url_parsed resp"
      and html: "is_html (content_type resp)" and hl: "html_links resp = Inr links"
      and mem: "''::not a url::'' \<in> set links"
      and complete: "fst (links_loop (host_machine env) url_parsed links [] []) = None"
      and nr: "\<forall>w. item_of w = Some (url, level) \<longrightarrow> raises env w = None"
      and turns: "2 * length links + 1 \<le> turns i sched"
  proof -
    from complete obtain bad good
      where ll: "links_loop (host_machine env) url_parsed links [] [] = (None, bad, good)"
      by (cases "links_loop (host_machine env) url_parsed links [] []") auto
    from links_loop_keeps [OF ll] mem cl have "new \<in> set good" by blast
    from page_run [OF nr html hl ll this i w turns] show ?thesis .
  qed
  from cl push show ?thesis by blast
qed

text \<open>The theorem at the page \<open>http://x.test/\<close> with that single link, and a single process.\<close>

theorem malformed_link_pushed_witness:
  "urlparse ''http://x.test/'' =
     Inr \<lparr>scheme = ''http'', netloc = ''x.test'', path = ''/'', params = '''', query = '''', fragment = ''''\<rparr> \<and>
   workers (crawl malformed_web ''http://x.test/'' (replicate 3 (0, 0))) ! 0 =
     WriteValid ''http://x.test/'' 0
       \<lparr>scheme = ''http'', netloc = ''x.test'', path = ''/'', params = '''', query = '''', fragment = ''''\<rparr>
       \<lparr>content_type = Some ''text/html; charset=utf-8'', html_links = Inr [''::not a url::''],
          content_md5 = ''''\<rparr> \<and>
   classify_link (host_machine malformed_web)
     \<lparr>scheme = ''http'', netloc = ''x.test'', path = ''/'', params = '''', query = '''', fragment = ''''\<rparr>
     ''::not a url::'' = Inr (LinkValid ''http://x.test/::not a url::'') \<and>
   pushes malformed_web 0 (''http://x.test/::not a url::'', 1) (replicate 3 (0, 0))
     (crawl malformed_web ''http://x.test/'' (replicate 3 (0, 0)))"
proof -
  define s where "s = crawl malformed_web ''http://x.test/'' (replicate 3 (0, 0))"
  define up where "up = \<lparr>scheme = ''http'', netloc = ''x.test'', path = ''/'', params = '''',
    query = '''', fragment = ''''\<rparr>"
  define resp where "resp = \<lparr>content_type = Some ''text/html; charset=utf-8'',
    html_links = Inr [''::not a url::''], content_md5 = ''''\<rparr>"
  have p: "urlparse ''http://x.test/'' = Inr up"
    unfolding up_def by code_simp
  have sch: "scheme up = ''http'' \<or> scheme up = ''https''" and host: "netloc up \<noteq> ''''"
    and new: "''http://x.test/::not a url::'' = scheme up @ ''://'' @ netloc up @ ''/::not a url::''"
    by (simp_all add: up_def)
  have mc: "host_machine malformed_web = no_symlinks" and nr: "raises malformed_web = (\<lambda>_. None)"
    by (simp_all add: malformed_web_def x_test_web_def)
  have int: "\<not> interrupted (host_machine malformed_web) ''::not a url::''"
      "\<not> interrupted (host_machine malformed_web) ''http://x.test/::not a url::''"
    by (simp_all add: mc no_symlinks_def)
  have len: "0 < length (workers s)" and w: "workers s ! 0 = WriteValid ''http://x.test/'' 0 up resp"
    unfolding s_def malformed_run_3 up_def resp_def by simp_all
  have html: "is_html (content_type resp)" and hl: "html_links resp = Inr [''::not a url::'']"
    unfolding resp_def by (simp_all add: is_html_def)
  have complete: "fst (links_loop (host_machine malformed_web) up [''::not a url::''] [] []) = None"
    unfolding mc up_def by code_simp
  have turns: "2 * length [''::not a url::''] + 1 \<le> turns 0 (replicate 3 (0, 0))"
    by (simp add: turns_def)
  have unvisited: "visited_urls (run malformed_web (replicate 3 (0, 0))
      (crawl malformed_web ''http://x.test/'' (replicate 3 (0, 0)))) = []"
    by code_simp
  note inst = malformed_link_pushed [OF p sch host new int,
      where i = 0 and s = s and level = 0 and resp = resp and links = "[''::not a url::'']"
        and sched = "replicate 3 (0, 0)"]
  from inst have cl: "classify_link (host_machine malformed_web) up ''::not a url::'' =
      Inr (LinkValid ''http://x.test/::not a url::'')" by blast
  from inst len w html hl complete turns nr
  have "pushes malformed_web 0 (''http://x.test/::not a url::'', 0 + 1) (replicate 3 (0, 0)) s \<or>
      ''http://x.test/::not a url::'' \<in> set (visited_urls (run malformed_web (replicate 3 (0, 0)) s))"
    by simp
  with unvisited have "pushes malformed_web 0 (''http://x.test/::not a url::'', 1) (replicate 3 (0, 0)) s"
    by (simp add: s_def)
  with p w cl show ?thesis unfolding s_def up_def resp_def by simp
qed

text \<open>
  Claim C2 as stated fails: on the page \<open>http://x.test/\<close> whose only link is
  \<open>::not a url::\<close>, a single worker writes no row to the file of invalid URLs and puts
  \<open>http://x.test/::not a url::\<close> on the queue at depth 1.
\<close>

theorem malformed_link_counterexample:
  "queue (crawl malformed_web ''http://x.test/'' (replicate 10 (0, 0))) =
     [(''http://x.test/::not a url::'', 1)] \<and>
   invalid_urls_fd (crawl malformed_web ''http://x.test/'' (replicate 10 (0, 0))) = []"
  by code_simp

subsection \<open>Depth of the items on the queue\<close>

text \<open>
  Claim C3, as the code has it.  In every state of every run with depth bound \<open>d\<close>:
  \<^item> every item ever put on the queue has depth 0 (the starting URL) or depth at most
    \<open>d + 1\<close>, and a worker that is past the guard of line 60 holds an item of depth at
    most \<open>d\<close>;
  \<^item> the counter of the queue is the number of items on the queue plus the number of
    items held by the processes;
  \<^item> a process in \<^verbatim>\<open>queue.get()\<close> that takes an item of depth above \<open>d\<close> from the
    queue goes to \<^verbatim>\<open>queue.task_done()\<close> (line 61): the item leaves the queue, the counter
    is unchanged, and nothing is fetched, written or appended to the visited URLs;
  \<^item> a process at \<^verbatim>\<open>queue.task_done()\<close> lowers the counter by one and returns to
    \<^verbatim>\<open>queue.get()\<close>;
  the last two when the queue operation itself does not raise.  Items of depth \<open>d + 1\<close>
  are put on the queue, since line 126 has no test of the depth.
\<close>

theorem enqueue_depth_bound:
  assumes "s = crawl env seed sched"
  shows "(\<forall>x \<in> set (put_log s). snd x = 0 \<or> snd x \<le> MAX_DEPTH_LEVEL env + 1) \<and>
   (\<forall>x \<in> set (queue s). snd x = 0 \<or> snd x \<le> MAX_DEPTH_LEVEL env + 1) \<and>
   (\<forall>w \<in> set (workers s). \<forall>x. guarded w \<and> item_of w = Some x \<longrightarrow> snd x \<le> MAX_DEPTH_LEVEL env) \<and>
   unfinished s = length (queue s) + length (filter holding (workers s)) \<and>
   (i < length (workers s) \<and> workers s ! i = Idle \<and> raises env Idle = None \<and>
    queue s = (u, l) # q \<and> MAX_DEPTH_LEVEL env < l \<longrightarrow>
      workers (step env (i, c) s) ! i = TaskDone u l \<and>
      queue (step env (i, c) s) = q \<and>
      unfinished (step env (i, c) s) = unfinished s \<and>
      visited_urls (step env (i, c) s) = visited_urls s \<and>
      valid_urls_fd (step env (i, c) s) = valid_urls_fd s \<and>
      invalid_urls_fd (step env (i, c) s) = invalid_urls_fd s \<and>
      duplicate_images_urls (step env (i, c) s) = duplicate_images_urls s \<and>
      stdout (step env (i, c) s) = stdout s \<and>
      fetch_log (step env (i, c) s) = fetch_log s) \<and>
   (i < length (workers s) \<and> workers s ! i = TaskDone u l \<and> raises env (TaskDone u l) = None \<longrightarrow>
      workers (step env (i, c) s) ! i = Idle \<and>
      Suc (unfinished (step env (i, c) s)) = unfinished s \<and>
      queue (step env (i, c) s) = queue s)"
proof -
  from depth_inv_crawl [of env seed sched] assms
  have sh: "depth_shared env s"
    and lo: "\<And>w. w \<in> set (workers s) \<Longrightarrow> depth_local env s w"
    by (auto simp: depth_inv_def)
  from sh have a: "\<forall>x \<in> set (put_log s). snd x = 0 \<or> snd x \<le> MAX_DEPTH_LEVEL env + 1"
    and sub: "set (queue s) \<subseteq> set (put_log s)"
    by (simp_all add: depth_shared_def)
  from a sub have b: "\<forall>x \<in> set (queue s). snd x = 0 \<or> snd x \<le> MAX_DEPTH_LEVEL env + 1"
    by blast
  have c: "snd x \<le> MAX_DEPTH_LEVEL env"
    if "w \<in> set (workers s)" "guarded w" "item_of w = Some x" for w x
    using lo [OF that(1)] that(2,3) by (simp add: depth_local_def)
  from counter_ok_crawl [of env seed sched] assms
  have d: "unfinished s = length (queue s) + length (filter holding (workers s))"
    by (simp add: counter_ok_def)
  have e: "workers (step env (i, c) s) ! i = TaskDone u l \<and>
      queue (step env (i, c) s) = q \<and>
      unfinished (step env (i, c) s) = unfinished s \<and>
      visited_urls (step env (i, c) s) = visited_urls s \<and>
      valid_urls_fd (step env (i, c) s) = valid_urls_fd s \<and>
      invalid_urls_fd (step env (i, c) s) = invalid_urls_fd s \<and>
      duplicate_images_urls (step env (i, c) s) = duplicate_images_urls s \<and>
      stdout (step env (i, c) s) = stdout s \<and>
      fetch_log (step env (i, c) s) = fetch_log s"
    if "i < length (workers s)" "workers s ! i = Idle" "raises env Idle = None"
      "queue s = (u, l) # q" "MAX_DEPTH_LEVEL env < l"
    using that by (simp add: step_eq)
  have f: "workers (step env (i, c) s) ! i = Idle \<and>
      Suc (unfinished (step env (i, c) s)) = unfinished s \<and>
      queue (step env (i, c) s) = queue s"
    if i: "i < length (workers s)" and w: "workers s ! i = TaskDone u l"
      and nr: "raises env (TaskDone u l) = None"
  proof -
    from i have "workers s ! i \<in> set (workers s)" by simp
    moreover from w have "holding (workers s ! i)" by (simp add: holding_def)
    ultimately have "1 \<le> length (filter holding (workers s))" by (rule holding_positive)
    with d have "unfinished s \<noteq> 0" by linarith
    with i w nr show ?thesis by (simp add: step_eq)
  qed
  from a b c d e f show ?thesis by blast
qed

text \<open>
  The theorem at the run with depth bound 0: the link \<open>/a\<close> of the starting page is
  put on the queue with depth 1; the process takes it from the queue without fetching
  it, and marks it done, which brings the counter to zero.
\<close>

theorem enqueue_depth_bound_witness:
  "(''http://x.test/a'', 1) \<in> set (put_log (crawl shallow_web ''http://x.test/'' (replicate 6 (0, 0)))) \<and>
   (1::int) \<le> MAX_DEPTH_LEVEL shallow_web + 1 \<and>
   queue (crawl shallow_web ''http://x.test/'' (replicate 10 (0, 0))) = [(''http://x.test/a'', 1)] \<and>
   workers (crawl shallow_web ''http://x.test/'' (replicate 10 (0, 0))) ! 0 = Idle \<and>
   MAX_DEPTH_LEVEL shallow_web < 1 \<and>
   workers (step shallow_web (0, 0) (crawl shallow_web ''http://x.test/'' (replicate 10 (0, 0)))) ! 0 =
     TaskDone ''http://x.test/a'' 1 \<and>
   queue (step shallow_web (0, 0) (crawl shallow_web ''http://x.test/'' (replicate 10 (0, 0)))) = [] \<and>
   unfinished (step shallow_web (0, 0) (crawl shallow_web ''http://x.test/'' (replicate 10 (0, 0)))) = 1 \<and>
   stdout (step shallow_web (0, 0) (crawl shallow_web ''http://x.test/'' (replicate 10 (0, 0)))) =
     [(''http://x.test/'', 0)] \<and>
   workers (crawl shallow_web ''http://x.test/'' (replicate 11 (0, 0))) ! 0 = TaskDone ''http://x.test/a'' 1 \<and>
   workers (step shallow_web (0, 0) (crawl shallow_web ''http://x.test/'' (replicate 11 (0, 0)))) ! 0 = Idle \<and>
   unfinished (step shallow_web (0, 0) (crawl shallow_web ''http://x.test/'' (replicate 11 (0, 0)))) = 0"
proof -
  define s6 where "s6 = crawl shallow_web ''http://x.test/'' (replicate 6 (0, 0))"
  define s10 where "s10 = crawl shallow_web ''http://x.test/'' (replicate 10 (0, 0))"
  define s11 where "s11 = crawl shallow_web ''http://x.test/'' (replicate 11 (0, 0))"
  have d: "MAX_DEPTH_LEVEL shallow_web = 0" and nr: "raises shallow_web = (\<lambda>_. None)"
    by (simp_all add: shallow_web_def x_test_web_def)
  have mem: "(''http://x.test/a'', 1) \<in> set (put_log s6)"
    by (simp add: s6_def shallow_run_6)
  from enqueue_depth_bound [OF s6_def] mem
  have "snd (''http://x.test/a'', 1::int) = 0 \<or>
        snd (''http://x.test/a'', 1::int) \<le> MAX_DEPTH_LEVEL shallow_web + 1"
    by blast
  then have bound: "(1::int) \<le> MAX_DEPTH_LEVEL shallow_web + 1" by simp
  have f10: "0 < length (workers s10)" "workers s10 ! 0 = Idle" "queue s10 = [(''http://x.test/a'', 1)]"
    "unfinished s10 = 1" "stdout s10 = [(''http://x.test/'', 0)]"
    by (simp_all add: s10_def shallow_run_10)
  from enqueue_depth_bound [OF s10_def, where i = 0 and u = "''http://x.test/a''" and l = 1
      and q = "[]" and c = 0] f10 d nr
  have discard: "workers (step shallow_web (0, 0) s10) ! 0 = TaskDone ''http://x.test/a'' 1"
    "queue (step shallow_web (0, 0) s10) = []" "unfinished (step shallow_web (0, 0) s10) = 1"
    "stdout (step shallow_web (0, 0) s10) = [(''http://x.test/'', 0)]"
    by simp_all
  have f11: "0 < length (workers s11)" "workers s11 ! 0 = TaskDone ''http://x.test/a'' 1"
    "unfinished s11 = 1"
    by (simp_all add: s11_def shallow_run_11)
  from enqueue_depth_bound [OF s11_def, where i = 0 and u = "''http://x.test/a''" and l = 1 and c = 0]
    f11 nr
  have mark: "workers (step shallow_web (0, 0) s11) ! 0 = Idle" "unfinished (step shallow_web (0, 0) s11) = 0"
    by simp_all
  from mem bound f10 d discard f11 mark show ?thesis
    unfolding s6_def s10_def s11_def by simp
qed

text \<open>
  Claim C3 as stated fails: with depth bound 0, the item for \<open>http://x.test/a\<close> is put
  on the queue with depth 1.
\<close>

theorem enqueue_depth_counterexample:
  "put_log (crawl shallow_web ''http://x.test/'' (replicate 6 (0, 0))) =
     [(''http://x.test/'', 0), (''http://x.test/a'', 1)] \<and>
   queue (crawl shallow_web ''http://x.test/'' (replicate 6 (0, 0))) =
     [(''http://x.test/a'', 1)] \<and>
   MAX_DEPTH_LEVEL shallow_web = 0"
proof -
  have "MAX_DEPTH_LEVEL shallow_web = 0" by (simp add: shallow_web_def x_test_web_def)
  then show ?thesis by (simp add: shallow_run_6)
qed

subsection \<open>Depth of the records and of the fetched pages\<close>

text \<open>
  Claim C4.  In every state of every run with depth bound \<open>d\<close>: every row of the file
  of visited URLs has depth at most \<open>d\<close>; every row of the file of invalid URLs was
  written while an item of depth at most \<open>d\<close> was processed; every call of the fetcher
  was made for an item of depth at most \<open>d\<close> that had been put on the queue.  So a URL
  that was put on the queue only with depths above \<open>d\<close>, as a page discovered only by
  links of pages of depth \<open>d\<close> is, is never fetched.
\<close>

theorem record_depth_bound:
  "(\<forall>x \<in> set (valid_urls_fd (crawl env seed sched)). snd x \<le> MAX_DEPTH_LEVEL env) \<and>
   length (invalid_items (crawl env seed sched)) = length (invalid_urls_fd (crawl env seed sched)) \<and>
   (\<forall>x \<in> set (invalid_items (crawl env seed sched)). snd x \<le> MAX_DEPTH_LEVEL env) \<and>
   (\<forall>x \<in> set (fetch_log (crawl env seed sched)).
       snd x \<le> MAX_DEPTH_LEVEL env \<and> x \<in> set (put_log (crawl env seed sched))) \<and>
   ((\<forall>l. (u, l) \<in> set (put_log (crawl env seed sched)) \<longrightarrow> MAX_DEPTH_LEVEL env < l) \<longrightarrow>
    (\<forall>l. (u, l) \<notin> set (fetch_log (crawl env seed sched))))"
proof -
  from depth_inv_crawl [of env seed sched]
  have sh: "depth_shared env (crawl env seed sched)" by (simp add: depth_inv_def)
  then have a: "\<forall>x \<in> set (valid_urls_fd (crawl env seed sched)). snd x \<le> MAX_DEPTH_LEVEL env"
    and b: "length (invalid_items (crawl env seed sched)) = length (invalid_urls_fd (crawl env seed sched))"
    and c: "\<forall>x \<in> set (invalid_items (crawl env seed sched)). snd x \<le> MAX_DEPTH_LEVEL env"
    and d: "\<forall>x \<in> set (fetch_log (crawl env seed sched)).
       snd x \<le> MAX_DEPTH_LEVEL env \<and> x \<in> set (put_log (crawl env seed sched))"
    by (simp_all add: depth_shared_def)
  have e: "(u, l) \<notin> set (fetch_log (crawl env seed sched))"
    if only: "\<forall>l. (u, l) \<in> set (put_log (crawl env seed sched)) \<longrightarrow> MAX_DEPTH_LEVEL env < l" for l
  proof
    assume f: "(u, l) \<in> set (fetch_log (crawl env seed sched))"
    with d have "l \<le> MAX_DEPTH_LEVEL env" "(u, l) \<in> set (put_log (crawl env seed sched))" by auto
    with only show False by auto
  qed
  from a b c d e show ?thesis by blast
qed

text \<open>
  The theorem at the run with depth bound 0 that ends with an empty queue: \<open>/a\<close> was
  discovered on the page of depth 0, put on the queue and taken from it, and not fetched.
\<close>

theorem record_depth_bound_witness:
  "put_log (crawl shallow_web ''http://x.test/'' (replicate 12 (0, 0))) =
     [(''http://x.test/'', 0), (''http://x.test/a'', 1)] \<and>
   valid_urls_fd (crawl shallow_web ''http://x.test/'' (replicate 12 (0, 0))) =
     [(''http://x.test/'', 0)] \<and>
   unfinished (crawl shallow_web ''http://x.test/'' (replicate 12 (0, 0))) = 0 \<and>
   (''http://x.test/a'', 1) \<notin> set (fetch_log (crawl shallow_web ''http://x.test/'' (replicate 12 (0, 0))))"
proof -
  have d: "MAX_DEPTH_LEVEL shallow_web = 0" by (simp add: shallow_web_def x_test_web_def)
  have only: "\<forall>l. (''http://x.test/a'', l) \<in>
        set (put_log (crawl shallow_web ''http://x.test/'' (replicate 12 (0, 0)))) \<longrightarrow>
      MAX_DEPTH_LEVEL shallow_web < l"
    by (simp add: shallow_run_12 d)
  from record_depth_bound [of shallow_web "''http://x.test/''" "replicate 12 (0, 0)" "''http://x.test/a''"] only
  have "(''http://x.test/a'', 1) \<notin>
      set (fetch_log (crawl shallow_web ''http://x.test/'' (replicate 12 (0, 0))))"
    by blast
  then show ?thesis by (simp add: shallow_run_12)
qed

subsection \<open>Confinement to the domain\<close>

text \<open>
  Claim C5.  In every state of every run: every row of the file of visited URLs names
  a URL whose host is the host of the starting URL; every row of the file of invalid
  URLs with \<open>EXTERNAL_DOMAIN\<close> names a URL whose host differs from the host of the
  starting URL; and every item on the queue is the starting URL or has its host.
\<close>

theorem domain_confinement:
  "(\<forall>x \<in> set (valid_urls_fd (crawl env seed sched)). same_host seed (fst x)) \<and>
   (\<forall>x \<in> set (invalid_urls_fd (crawl env seed sched)).
       snd x = EXTERNAL_DOMAIN \<longrightarrow> foreign_host seed (fst x)) \<and>
   (\<forall>x \<in> set (queue (crawl env seed sched)). fst x = seed \<or> same_host seed (fst x))"
  using host_inv_crawl [of seed env sched]
  by (simp add: host_inv_def host_shared_def invalid_ok_def frontier_ok_def)

text \<open>The theorem at the run of the two processes.\<close>

theorem domain_confinement_witness:
  "(''http://x.test/'', 1) \<in> set (valid_urls_fd (crawl self_link_web ''http://x.test/'' race_schedule)) \<and>
   same_host ''http://x.test/'' ''http://x.test/'' \<and>
   (''http://other.test/b'', EXTERNAL_DOMAIN) \<in>
     set (invalid_urls_fd (crawl self_link_web ''http://x.test/'' race_schedule)) \<and>
   foreign_host ''http://x.test/'' ''http://other.test/b'' \<and>
   (''http://x.test/a'', 1) \<in> set (queue (crawl self_link_web ''http://x.test/'' race_schedule)) \<and>
   same_host ''http://x.test/'' ''http://x.test/a''"
proof -
  have v: "(''http://x.test/'', 1) \<in> set (valid_urls_fd (crawl self_link_web ''http://x.test/'' race_schedule))"
    and i: "(''http://other.test/b'', EXTERNAL_DOMAIN) \<in>
      set (invalid_urls_fd (crawl self_link_web ''http://x.test/'' race_schedule))"
    and q: "(''http://x.test/a'', 1) \<in> set (queue (crawl self_link_web ''http://x.test/'' race_schedule))"
    by (simp_all add: race_state)
  have ne: "''http://x.test/a'' \<noteq> ''http://x.test/''" by simp
  note dc = domain_confinement [of self_link_web "''http://x.test/''" race_schedule]
  from dc v have "same_host ''http://x.test/'' (fst (''http://x.test/'', 1::int))" by blast
  moreover from dc i have "foreign_host ''http://x.test/'' (fst (''http://other.test/b'', EXTERNAL_DOMAIN))"
    by force
  moreover from dc q have "fst (''http://x.test/a'', 1::int) = ''http://x.test/'' \<or>
      same_host ''http://x.test/'' (fst (''http://x.test/a'', 1::int))" by blast
  ultimately show ?thesis using v i q ne by simp
qed

subsection \<open>At most one row per visited URL\<close>

text \<open>
  Claim C6: each URL gets at most one row in the file of visited URLs.  The test of
  line 65 and the append of line 146 are separated by the whole processing of the URL,
  so two processes can pass the test for the same URL.  With two processes and the page
  \<open>http://x.test/\<close> that links to itself, \<open>race_schedule\<close> ends with two rows for that
  URL, at depths 0 and 1; both processes have fetched it.
\<close>

theorem duplicate_valid_record:
  "valid_urls_fd (crawl self_link_web ''http://x.test/'' race_schedule) =
     [(''http://x.test/'', 0), (''http://x.test/'', 1)] \<and>
   fetch_log (crawl self_link_web ''http://x.test/'' race_schedule) =
     [(''http://x.test/'', 0), (''http://x.test/'', 1)]"
  by code_simp

subsection \<open>At most one download error per URL\<close>

text \<open>
  Claim C10: every processed item ends with its URL in the visited URLs, so that each
  URL gets at most one row with \<open>DOWNLOAD_ERROR\<close>.  The same gap between lines 65 and
  146 breaks the conclusion: \<open>race_schedule_2\<close> lets both processes take an item for
  \<open>http://x.test/a\<close>, whose download fails, before either has appended it to the
  visited URLs, and the file of invalid URLs gets two rows for it.
\<close>

theorem duplicate_download_error:
  "invalid_urls_fd (crawl self_link_web ''http://x.test/'' race_schedule_2) =
     [(''http://other.test/b'', EXTERNAL_DOMAIN), (''http://other.test/b'', EXTERNAL_DOMAIN),
      (''http://x.test/a'', DOWNLOAD_ERROR), (''http://x.test/a'', DOWNLOAD_ERROR)] \<and>
   put_log (crawl self_link_web ''http://x.test/'' race_schedule_2) =
     [(''http://x.test/'', 0), (''http://x.test/'', 1), (''http://x.test/a'', 1), (''http://x.test/a'', 2)]"
  by code_simp

subsection \<open>Unexpected exceptions\<close>

text \<open>
  The single process on \<open>failing_sink_web\<close> after five and after six actions: about to
  write the row of the external link to the file of invalid URLs, and ended.
\<close>

lemma failing_sink_run_5:
  "crawl failing_sink_web ''http://x.test/'' (replicate 5 (0, 0)) =
   \<lparr>queue = [], unfinished = 1, visited_urls = [], duplicate_images_urls = [],
    valid_urls_fd = [(''http://x.test/'', 0)], invalid_urls_fd = [],
    stdout = [(''http://x.test/'', 0)], stderr = [],
    workers = [WriteInvalid ''http://x.test/'' 0 [(''http://other.test/b'', EXTERNAL_DOMAIN)]],
    put_log = [(''http://x.test/'', 0)],
    fetch_log = [(''http://x.test/'', 0)], invalid_items = [], done_log = []\<rparr>"
  by code_simp

lemma failing_sink_run_6:
  "crawl failing_sink_web ''http://x.test/'' (replicate 6 (0, 0)) =
   \<lparr>queue = [], unfinished = 1, visited_urls = [], duplicate_images_urls = [],
    valid_urls_fd = [(''http://x.test/'', 0)], invalid_urls_fd = [],
    stdout = [(''http://x.test/'', 0)], stderr = [],
    workers = [Dead (Some (''http://x.test/'', 0))],
    put_log = [(''http://x.test/'', 0)],
    fetch_log = [(''http://x.test/'', 0)], invalid_items = [], done_log = []\<rparr>"
  by code_simp

text \<open>
  Claim C7: an unexpected error raised during the fetch, the extraction or the writing
  of the records is caught and written to the error stream, and the worker still
  appends the URL to the visited URLs and marks the item done, so that the error cannot
  prevent the termination.  The rows of \<^verbatim>\<open>invalid_urls\<close> are written after the handler,
  outside the \<^verbatim>\<open>try\<close> (lines 140--144).  On the page \<open>http://x.test/\<close> with a link to
  another host, where the write of that row raises an exception, the single process
  ends when it writes the row: whatever the schedule that follows, nothing is on the
  error stream, the URL is not among the visited URLs, the item is not marked done, and
  the counter of the queue stays at 1 with an empty queue, so that \<^verbatim>\<open>queue.join()\<close>
  does not return.
\<close>

theorem invalid_write_error_ends_worker:
  "workers (crawl failing_sink_web ''http://x.test/'' (replicate 5 (0, 0))) =
     [WriteInvalid ''http://x.test/'' 0 [(''http://other.test/b'', EXTERNAL_DOMAIN)]] \<and>
   raises failing_sink_web (WriteInvalid ''http://x.test/'' 0 [(''http://other.test/b'', EXTERNAL_DOMAIN)]) =
     Some OtherException \<and>
   workers (run failing_sink_web sched (crawl failing_sink_web ''http://x.test/'' (replicate 6 (0, 0)))) =
     [Dead (Some (''http://x.test/'', 0))] \<and>
   stderr (run failing_sink_web sched (crawl failing_sink_web ''http://x.test/'' (replicate 6 (0, 0)))) = [] \<and>
   invalid_urls_fd (run failing_sink_web sched (crawl failing_sink_web ''http://x.test/'' (replicate 6 (0, 0)))) = [] \<and>
   visited_urls (run failing_sink_web sched (crawl failing_sink_web ''http://x.test/'' (replicate 6 (0, 0)))) = [] \<and>
   done_log (run failing_sink_web sched (crawl failing_sink_web ''http://x.test/'' (replicate 6 (0, 0)))) = [] \<and>
   queue (run failing_sink_web sched (crawl failing_sink_web ''http://x.test/'' (replicate 6 (0, 0)))) = [] \<and>
   unfinished (run failing_sink_web sched (crawl failing_sink_web ''http://x.test/'' (replicate 6 (0, 0)))) = 1"
proof -
  define s where "s = crawl failing_sink_web ''http://x.test/'' (replicate 6 (0, 0))"
  have "\<forall>w \<in> set (workers s). \<exists>x. w = Dead x" by (simp add: s_def failing_sink_run_6)
  then have stuck: "run failing_sink_web sched s = s" by (rule dead_run)
  have r: "raises failing_sink_web (WriteInvalid ''http://x.test/'' 0 [(''http://other.test/b'', EXTERNAL_DOMAIN)]) =
     Some OtherException"
    by (simp add: failing_sink_web_def failing_sink_def)
  have "workers s = [Dead (Some (''http://x.test/'', 0))]" "stderr s = []" "invalid_urls_fd s = []"
    "visited_urls s = []" "done_log s = []" "queue s = []" "unfinished s = 1"
    by (simp_all add: s_def failing_sink_run_6)
  with r stuck show ?thesis unfolding s_def [symmetric] by (simp add: failing_sink_run_5)
qed
section \<open>Properties of the duplicate-image report\<close>













end
